theory Spec2Isabelle
  imports Complex_Main "HOL-Library.Multiset" "HOL-Library.List_Lexorder"
begin

section \<open>Pauli terms in symplectic form\<close>

text \<open>
  A Pauli term on \<open>n\<close> qubits is one row of a symplectic matrix: \<open>2 * n\<close> bits, the
  X block first, the Z block second.  Qubit \<open>k\<close> carries \<open>I\<close>, \<open>X\<close>, \<open>Z\<close> or \<open>Y\<close> when its
  pair of bits (X bit, Z bit) is \<open>(0,0)\<close>, \<open>(1,0)\<close>, \<open>(0,1)\<close> or \<open>(1,1)\<close>.  A PauliwordOp is
  an ordered collection of rows with one complex coefficient each.
\<close>

type_synonym pvec = "bool list"

type_synonym pauliop = "(pvec \<times> complex) list"

datatype error = AssertionError string | ValueError string | IndexError

text \<open>
  Modelled from the spec: \<open>PauliwordOp.from_list\<close> / \<open>from_dictionary\<close> (class
  PauliwordOp is not in src/): an operator is built from Pauli-string labels over
  \<open>I, X, Y, Z\<close>.  \<open>pauli_row\<close> is the row of one label.
\<close>

definition pauli_row :: "string \<Rightarrow> pvec" where
  "pauli_row s = map (\<lambda>c. c = CHR ''X'' \<or> c = CHR ''Y'') s @ map (\<lambda>c. c = CHR ''Z'' \<or> c = CHR ''Y'') s"

definition X_block :: "nat \<Rightarrow> pvec \<Rightarrow> bool list" where
  "X_block n v = take n v"

definition Z_block :: "nat \<Rightarrow> pvec \<Rightarrow> bool list" where
  "Z_block n v = drop n v"

text \<open>The qubits of a row of length \<open>2 * n\<close>: the list of its (X bit, Z bit) pairs.\<close>

definition qubits :: "pvec \<Rightarrow> (bool \<times> bool) list" where
  "qubits v = zip (X_block (length v div 2) v) (Z_block (length v div 2) v)"

subsection \<open>Product with phase, commutation\<close>

text \<open>
  Modelled from the spec: \<open>mul_symplectic\<close> (symmer.operators.utils, not in src/), the
  product of two terms returning a new term plus a complex phase factor.  The new row is
  the bitwise exclusive or; the phase is a power of the imaginary unit, the product over
  the qubits of the phases of the single-qubit products
  \<open>X Y = i Z\<close>, \<open>Y Z = i X\<close>, \<open>Z X = i Y\<close>, \<open>Y X = - i Z\<close>, \<open>Z Y = - i X\<close>, \<open>X Z = - i Y\<close>.
  \<open>qubit_phase p q\<close> is the exponent of \<open>i\<close> in the product of the single-qubit Paulis
  \<open>p\<close> and \<open>q\<close>.
\<close>

fun qubit_phase :: "bool \<times> bool \<Rightarrow> bool \<times> bool \<Rightarrow> nat" where
  "qubit_phase (x1, z1) (x2, z2) =
     (if (\<not> x1 \<and> \<not> z1) \<or> (\<not> x2 \<and> \<not> z2) \<or> (x1 = x2 \<and> z1 = z2) then 0
      else if (x1 \<and> \<not> z1 \<and> x2 \<and> z2) \<or> (x1 \<and> z1 \<and> \<not> x2 \<and> z2) \<or> (\<not> x1 \<and> z1 \<and> x2 \<and> \<not> z2)
      then 1 else 3)"

definition phase_exponent :: "pvec \<Rightarrow> pvec \<Rightarrow> nat" where
  "phase_exponent v w = sum_list (map2 qubit_phase (qubits v) (qubits w))"

definition xor_rows :: "pvec \<Rightarrow> pvec \<Rightarrow> pvec" where
  "xor_rows v w = map2 (\<noteq>) v w"

definition mul_symplectic :: "pvec \<Rightarrow> complex \<Rightarrow> pvec \<Rightarrow> complex \<Rightarrow> pvec \<times> complex" where
  "mul_symplectic v c w d = (xor_rows v w, c * d * \<i> ^ phase_exponent v w)"

text \<open>
  Modelled from the spec: the pairwise commutation test of the Pauli algebra layer
  (not in src/).  Two single-qubit Paulis anticommute when both differ from \<open>I\<close> and from
  each other; two terms commute when they anticommute on an even number of qubits.
\<close>

fun qubit_anticommutes :: "bool \<times> bool \<Rightarrow> bool \<times> bool \<Rightarrow> bool" where
  "qubit_anticommutes (x1, z1) (x2, z2) = ((x1 \<and> z2) \<noteq> (z1 \<and> x2))"

definition anticommuting_count :: "pvec \<Rightarrow> pvec \<Rightarrow> nat" where
  "anticommuting_count v w = length (filter (\<lambda>(p, q). qubit_anticommutes p q) (zip (qubits v) (qubits w)))"

definition commutes :: "pvec \<Rightarrow> pvec \<Rightarrow> bool" where
  "commutes v w = even (anticommuting_count v w)"

text \<open>
  \<open>commutes_termwise A B\<close> is the boolean matrix with entry \<open>(a, i)\<close> true when term \<open>a\<close> of
  \<open>A\<close> commutes with term \<open>i\<close> of \<open>B\<close>; \<open>adjacency_matrix\<close> is the matrix of an operator
  against itself.
\<close>

definition commutes_termwise :: "pauliop \<Rightarrow> pauliop \<Rightarrow> bool list list" where
  "commutes_termwise A B = map (\<lambda>(v, c). map (\<lambda>(w, d). commutes v w) B) A"

definition adjacency_matrix :: "pauliop \<Rightarrow> bool list list" where
  "adjacency_matrix A = commutes_termwise A A"

subsection \<open>Cleanup, sum, product, adjoint\<close>

text \<open>
  Modelled from the spec: \<open>cleanup\<close> of the Pauli algebra layer (not in src/): merge
  duplicate terms, summing their coefficients, and drop the terms whose coefficient is
  zero.  Coefficients are exact complex numbers here, so "near zero" is zero.  The rows of
  the result are distinct and in ascending lexicographic order, which makes the result a
  canonical form of the operator.
\<close>

definition coeff_of :: "pauliop \<Rightarrow> pvec \<Rightarrow> complex" where
  "coeff_of A t = sum_list (map snd (filter (\<lambda>(v, c). v = t) A))"

definition cleanup :: "pauliop \<Rightarrow> pauliop" where
  "cleanup A = filter (\<lambda>(v, c). c \<noteq> 0) (map (\<lambda>v. (v, coeff_of A v)) (sort (remdups (map fst A))))"

text \<open>
  Modelled from the spec: sum, difference, scalar multiple and product of PauliwordOps
  and the adjoint \<open>dagger\<close> (class PauliwordOp is not in src/).  Sum and product return
  the cleaned operator; a Pauli string is self-adjoint, so the adjoint conjugates the
  coefficients.
\<close>

definition op_add :: "pauliop \<Rightarrow> pauliop \<Rightarrow> pauliop" where
  "op_add A B = cleanup (A @ B)"

definition multiply_by_constant :: "pauliop \<Rightarrow> complex \<Rightarrow> pauliop" where
  "multiply_by_constant A k = map (\<lambda>(v, c). (v, c * k)) A"

definition op_sub :: "pauliop \<Rightarrow> pauliop \<Rightarrow> pauliop" where
  "op_sub A B = op_add A (multiply_by_constant B (- 1))"

definition raw_product :: "pauliop \<Rightarrow> pauliop \<Rightarrow> pauliop" where
  "raw_product A B = concat (map (\<lambda>(v, c). map (\<lambda>(w, d). mul_symplectic v c w d) B) A)"

definition op_mul :: "pauliop \<Rightarrow> pauliop \<Rightarrow> pauliop" where
  "op_mul A B = cleanup (raw_product A B)"

definition dagger :: "pauliop \<Rightarrow> pauliop" where
  "dagger A = map (\<lambda>(v, c). (v, cnj c)) A"


section \<open>AntiCommutingOp\<close>

text \<open>
  An AntiCommutingOp is a PauliwordOp whose distinct terms pairwise anticommute, with two
  recipe caches: the list \<open>X_sk_rotations\<close> of (generator, angle) pairs and the operator
  \<open>R_LCU\<close>.  Unitary partitioning requires real coefficients, and the coefficient vector
  is real here, so that the check of line 149 (no imaginary part) always passes.

  Floating-point numbers are exact reals, and the norm \<open>gamma_l\<close> is the exact norm: the
  model describes the calls in which no square, norm or quotient overflows or underflows.
  Where numpy leaves the reals on such a call the model says so:
  a quotient \<open>0 / 0\<close> is NaN, a quotient \<open>x / 0\<close> with \<open>x \<noteq> 0\<close> is a signed infinity.
  A cache that holds an operator with NaN coefficients is \<open>CachedNaN\<close>, and a call that
  returns arrays holding NaN has the outcome \<open>NonFinite\<close>.
\<close>

type_synonym real_op = "(pvec \<times> real) list"

type_synonym rotation = "(pvec \<times> complex) \<times> real"

datatype lcu_cache = NoLCU | CachedLCU pauliop | CachedNaN

record anticommuting_op =
  n_qubits :: nat
  symp_matrix :: "pvec list"
  coeff_vec :: "real list"
  X_sk_rotations :: "rotation list"
  R_LCU :: lcu_cache

datatype 'a outcome = Returned 'a | Raised error | NonFinite

definition terms_of :: "anticommuting_op \<Rightarrow> real_op" where
  "terms_of self = zip (symp_matrix self) (coeff_vec self)"

definition complex_op :: "real_op \<Rightarrow> pauliop" where
  "complex_op A = map (\<lambda>(v, c). (v, complex_of_real c)) A"

text \<open>
  The check of \<open>__init__\<close> (lines 16-17): the adjacency matrix minus the identity matrix
  sums to zero.
\<close>

definition anti_comm_check :: "pvec list \<Rightarrow> int list list" where
  "anti_comm_check rows =
     map (\<lambda>i. map (\<lambda>j. (if commutes (rows ! i) (rows ! j) then 1 else 0) - (if i = j then 1 else 0))
                  [0..<length rows]) [0..<length rows]"

definition AntiCommutingOp :: "nat \<Rightarrow> pvec list \<Rightarrow> real list \<Rightarrow> error + anticommuting_op" where
  "AntiCommutingOp n rows coeffs =
     (if sum_list (concat (anti_comm_check rows)) = 0
      then Inr \<lparr>n_qubits = n, symp_matrix = rows, coeff_vec = coeffs, X_sk_rotations = [], R_LCU = NoLCU\<rparr>
      else Inl (AssertionError ''operator needs to be made of anti-commuting Pauli operators''))"

subsection \<open>get_least_dense_term_index\<close>

definition pos_terms_occur :: "nat \<Rightarrow> pvec \<Rightarrow> bool list" where
  "pos_terms_occur n v = map2 (\<or>) (X_block n v) (Z_block n v)"

text \<open>
  The product of a boolean row with the vector \<open>1 << arange(n)[::-1]\<close> of Python
  integers: the row read as a binary number, qubit 0 the most significant bit.
\<close>

definition int_of_row :: "bool list \<Rightarrow> int" where
  "int_of_row bs = sum_list (map2 (\<lambda>b w. if b then w else 0) bs (rev (map (\<lambda>k. 2 ^ k) [0..<length bs])))"

text \<open>\<open>np.argmin\<close>: the first index of the least entry; it raises on an empty array.\<close>

fun argmin_list :: "int list \<Rightarrow> nat" where
  "argmin_list [] = 0"
| "argmin_list [x] = 0"
| "argmin_list (x # y # ys) = (let j = argmin_list (y # ys) in if x \<le> (y # ys) ! j then 0 else Suc j)"

definition argmin :: "int list \<Rightarrow> error + nat" where
  "argmin xs = (if xs = [] then Inl (ValueError ''attempt to get argmin of an empty sequence'')
                else Inr (argmin_list xs))"

definition get_least_dense_term_index :: "anticommuting_op \<Rightarrow> error + nat" where
  "get_least_dense_term_index self =
     (let int_list = map (\<lambda>v. int_of_row (pos_terms_occur (n_qubits self) v)) (symp_matrix self)
      in argmin int_list)"

subsection \<open>_recursive_seq_rotations\<close>

definition isclose :: "real \<Rightarrow> real \<Rightarrow> bool" where
  "isclose a b = (\<bar>a - b\<bar> \<le> 1 / 10 ^ 8 + 1 / 10 ^ 5 * \<bar>b\<bar>)"

definition linalg_norm :: "real list \<Rightarrow> real" where
  "linalg_norm xs = sqrt (sum_list (map (\<lambda>x. x ^ 2) xs))"

text \<open>
  \<open>np.arctan(\<beta>_k / \<beta>_s)\<close> (line 95): \<open>None\<close> is NaN, the value of \<open>0 / 0\<close>; the arc
  tangent of a signed infinity is \<open>\<plusminus> \<pi> / 2\<close>.
\<close>

definition arctan_quotient :: "real \<Rightarrow> real \<Rightarrow> real option" where
  "arctan_quotient bk bs =
     (if bs \<noteq> 0 then Some (arctan (bk / bs))
      else if bk = 0 then None
      else Some (sgn bk * (pi / 2)))"

text \<open>
  The angle of one step (lines 95-97), the generator \<open>X_sk = P_s * (-i P_k)\<close>
  (lines 103-104) and the recorded pair after the sign correction (lines 105-107).
\<close>

definition theta_sk :: "real \<Rightarrow> real \<Rightarrow> real option" where
  "theta_sk bs bk =
     (case arctan_quotient bk bs of
        None \<Rightarrow> None
      | Some th \<Rightarrow> Some (if bs < 0 then th + pi else th))"

definition X_sk :: "pvec \<Rightarrow> pvec \<Rightarrow> pvec \<times> complex" where
  "X_sk Ps Pk = mul_symplectic Ps 1 Pk (- \<i>)"

definition recorded_rotation :: "pvec \<times> complex \<Rightarrow> real \<Rightarrow> rotation" where
  "recorded_rotation X th = (if Re (snd X) < 0 then ((fst X, - snd X), - th) else (X, th))"

text \<open>
  The first argument is \<open>self.X_sk_rotations\<close>, returned as the call leaves it (also
  when an assertion fails).  With no term at all, line 91 reads row 0 of an empty matrix.
\<close>

fun recursive_seq_rotations :: "rotation list \<Rightarrow> real_op \<Rightarrow> rotation list \<times> (error + real_op)" where
  "recursive_seq_rotations rots [] = (rots, Inl IndexError)"
| "recursive_seq_rotations rots [t] = (rots, Inr [t])"
| "recursive_seq_rotations rots ((Ps, bs) # (Pk, bk) # rest) =
     (case theta_sk bs bk of
        None \<Rightarrow> (rots, Inl (AssertionError ''term not zeroing out''))
      | Some th \<Rightarrow>
          if \<not> isclose (bk * cos th - bs * sin th) 0
          then (rots, Inl (AssertionError ''term not zeroing out''))
          else recursive_seq_rotations (rots @ [recorded_rotation (X_sk Ps Pk) th])
                 ((Ps, sqrt (bs ^ 2 + bk ^ 2)) # rest))"

subsection \<open>generate_LCU_operator\<close>

text \<open>
  The first argument is \<open>self.R_LCU\<close>, returned as the call leaves it; the operator
  \<open>AC_op\<close> is the normalized clique with the target term first.
\<close>

definition identity_row :: "nat \<Rightarrow> pvec" where
  "identity_row n = replicate (2 * n) False"

definition generate_LCU_operator :: "lcu_cache \<Rightarrow> nat \<Rightarrow> real_op \<Rightarrow> lcu_cache \<times> (error + pauliop option)" where
  "generate_LCU_operator cache n AC_op =
     (if length AC_op = 1 then (NoLCU, Inr None)
      else case AC_op of
        [] \<Rightarrow> (cache, Inl IndexError)
      | (P0, bs) # _ \<Rightarrow>
         (let Ps_LCU = [(P0, 1)];
              no_bsPs = op_sub (complex_op AC_op) (multiply_by_constant Ps_LCU (complex_of_real bs));
              omega_l = sqrt (sum_list (map (\<lambda>(v, c). (cmod c) ^ 2) no_bsPs));
              no_bsPs = map (\<lambda>(v, c). (v, c / complex_of_real omega_l)) no_bsPs;
              phi_n_1 = arccos bs;
              phi_n_1 = (if phi_n_1 > pi then 2 * pi - phi_n_1 else phi_n_1);
              alpha = phi_n_1;
              R0 = [(identity_row n, complex_of_real (cos (alpha / 2)))];
              sin_term = - sin (alpha / 2);
              R = foldl (\<lambda>R dkPk. op_add R (multiply_by_constant (op_mul [dkPk] Ps_LCU) (complex_of_real sin_term)))
                        R0 no_bsPs
          in (CachedLCU R, Inr (Some Ps_LCU))))"

subsection \<open>unitary_partitioning\<close>

datatype recipe = NoRotations | Rotations "rotation list" | LCU_operator lcu_cache

type_synonym up_result = "real_op \<times> recipe \<times> real \<times> real_op"

text \<open>Python indexing of an array of length \<open>n\<close>: a negative index counts from the end.\<close>

definition array_index :: "nat \<Rightarrow> int \<Rightarrow> error + nat" where
  "array_index n i =
     (if 0 \<le> i \<and> i < int n then Inr (nat i)
      else if - int n \<le> i \<and> i < 0 then Inr (nat (i + int n))
      else Inl IndexError)"

text \<open>Lines 159-160: rows 0 and \<open>s\<close> exchanged.\<close>

definition swap_rows :: "nat \<Rightarrow> 'a list \<Rightarrow> 'a list" where
  "swap_rows s xs = xs[0 := xs ! s, s := xs ! 0]"

text \<open>
  Lines 154-161: the target index (the least dense term by default), and the clique
  with the target term first.  The operator rebuilt in line 161 is checked again by
  \<open>__init__\<close>.
\<close>

definition select_target :: "anticommuting_op \<Rightarrow> int option \<Rightarrow> error + int" where
  "select_target self s_index =
     (case s_index of
        Some i \<Rightarrow> Inr i
      | None \<Rightarrow> (case get_least_dense_term_index self of Inl e \<Rightarrow> Inl e | Inr s \<Rightarrow> Inr (int s)))"

definition target_first :: "anticommuting_op \<Rightarrow> int \<Rightarrow> error + (pvec list \<times> real list)" where
  "target_first self s_index =
     (if s_index \<noteq> 0 then
        (case array_index (length (coeff_vec self)) s_index of
           Inl e \<Rightarrow> Inl e
         | Inr s \<Rightarrow>
            (case AntiCommutingOp (n_qubits self) (swap_rows s (symp_matrix self)) (swap_rows s (coeff_vec self)) of
               Inl e \<Rightarrow> Inl e
             | Inr op \<Rightarrow> Inr (symp_matrix op, coeff_vec op)))
      else Inr (symp_matrix self, coeff_vec self))"

text \<open>
  The result is the object after the call (its caches may have changed) and the outcome
  of the call.  \<open>gamma_l = 0\<close> with at least one term makes every normalized coefficient
  NaN: the comparison of line 100 then fails, and what the LCU method builds holds NaN.
\<close>

definition unitary_partitioning ::
  "anticommuting_op \<Rightarrow> int option \<Rightarrow> string \<Rightarrow> anticommuting_op \<times> up_result outcome" where
  "unitary_partitioning self s_index up_method =
     (let gamma_l = linalg_norm (coeff_vec self) in
      if length (terms_of self) = 1 then
        (if gamma_l = 0 then (self, NonFinite)
         else (let AC_op = map (\<lambda>(v, c). (v, c / gamma_l)) (terms_of self)
               in (self, Returned (AC_op, NoRotations, gamma_l, AC_op))))
      else
        case select_target self s_index of
          Inl e \<Rightarrow> (self, Raised e)
        | Inr s \<Rightarrow>
           (case target_first self s of
              Inl e \<Rightarrow> (self, Raised e)
            | Inr (rows, coeffs) \<Rightarrow>
               (let AC_op = zip rows (map (\<lambda>c. c / gamma_l) coeffs);
                    nan = (gamma_l = 0 \<and> AC_op \<noteq> [])
                in if up_method = ''seq_rot'' then
                     (if nan then (self\<lparr>X_sk_rotations := []\<rparr>, Raised (AssertionError ''term not zeroing out''))
                      else case recursive_seq_rotations [] AC_op of
                        (rots, Inl e) \<Rightarrow> (self\<lparr>X_sk_rotations := rots\<rparr>, Raised e)
                      | (rots, Inr Ps) \<Rightarrow>
                          (self\<lparr>X_sk_rotations := rots\<rparr>, Returned (Ps, Rotations rots, gamma_l, AC_op)))
                   else if up_method = ''LCU'' then
                     (if nan then (self\<lparr>R_LCU := CachedNaN\<rparr>, NonFinite)
                      else case generate_LCU_operator NoLCU (n_qubits self) AC_op of
                        (cache, Inl e) \<Rightarrow> (self\<lparr>R_LCU := cache\<rparr>, Raised e)
                      | (cache, Inr None) \<Rightarrow> (self\<lparr>R_LCU := cache\<rparr>, Returned ([], LCU_operator cache, gamma_l, AC_op))
                      | (cache, Inr (Some Ps)) \<Rightarrow>
                          (self\<lparr>R_LCU := cache\<rparr>,
                           Returned (map (\<lambda>(v, c). (v, Re c)) Ps, LCU_operator cache, gamma_l, AC_op)))
                   else (self, Raised (ValueError ''unknown unitary partitioning method'')))))"

section \<open>conjugate_Pop_with_R\<close>

text \<open>
  The term-by-term conjugation \<open>R Pop R\<^sup>\<dagger>\<close> of lines 284-333.  The matrices
  \<open>commutation_check\<close> and \<open>adj_matrix\<close> hold 1 where two terms anticommute and 0 where
  they commute; the three nested loops run over the indices of the terms.
\<close>

definition negated_as_int :: "bool list list \<Rightarrow> nat list list" where
  "negated_as_int M = map (map (\<lambda>b. if b then 0 else 1)) M"

definition conjugate_Pop_with_R :: "pauliop \<Rightarrow> pauliop \<Rightarrow> pauliop" where
  "conjugate_Pop_with_R Pop R =
     (if length Pop = 1 then cleanup (op_mul (op_mul R Pop) (dagger R))
      else
        (let commutation_check = negated_as_int (commutes_termwise Pop R);
             adj_matrix = negated_as_int (adjacency_matrix R);
             c_list = map snd R;
             ca_list = map snd Pop;
             terms =
               concat (map (\<lambda>ind_a. concat (map (\<lambda>ind_i.
                 (let Pa_vec = fst (Pop ! ind_a);
                      Pi_vec = fst (R ! ind_i);
                      sign = (- 1) ^ (commutation_check ! ind_a ! ind_i);
                      coeff = c_list ! ind_i * cnj (c_list ! ind_i) * ca_list ! ind_a;
                      PiPa = mul_symplectic Pi_vec 1 Pa_vec 1
                  in (Pa_vec, coeff * sign) #
                     concat (map (\<lambda>ind_j.
                       (let Pj_vec = fst (R ! ind_j);
                            sign2 = (- 1) ^ (commutation_check ! ind_a ! ind_i
                                             + commutation_check ! ind_a ! ind_j
                                             + adj_matrix ! ind_i ! ind_j);
                            coeff1 = c_list ! ind_i * ca_list ! ind_a * cnj (c_list ! ind_j);
                            coeff2 = c_list ! ind_j * ca_list ! ind_a * cnj (c_list ! ind_i);
                            overall_coeff = coeff1 + sign2 * coeff2
                        in if overall_coeff \<noteq> 0
                           then [mul_symplectic (fst PiPa) (snd PiPa) Pj_vec overall_coeff]
                           else []))
                       [ind_i + 1 ..< length R])))
                 [0 ..< length R])) [0 ..< length Pop])
         in cleanup terms))"

section \<open>NoncontextualOp\<close>

text \<open>
  The blocks of the decomposition are named like the keys of the dictionary
  \<open>decomposed\<close>: the integers \<open>0, \<dots>, M - 1\<close> for the cliques and \<open>'symmetry'\<close>.  The
  dictionary is the list of its items in insertion order.
\<close>

datatype block_key = Clique nat | Symmetry

record noncontextual_op =
  nc_terms :: pauliop
  symmetry_generators :: pauliop
  decomposed :: "(block_key \<times> pauliop) list"
  n_cliques :: nat
  clique_operator :: pauliop
  G_indices :: "int list list"
  C_indices :: "int list list"
  mask_S0 :: "bool list"
  mask_Ci :: "bool list list"
  pauli_mult_signs :: "int list"

text \<open>
  The collaborators of the constructor that are not in src/ and of which the spec gives
  the contract only (sections 4.1, 4.2, 4.4 and 6) are parameters of the model:
  the noncontextuality test, the symmetry generators of an operator, the generic and the
  Jordan-product generator reconstruction (each returns the reconstruction matrix and
  the per-row success mask), and the clique cover, which returns the cliques in the
  order of their keys \<open>0, 1, \<dots>\<close>.
\<close>

record pauli_layer =
  is_noncontextual :: "pauliop \<Rightarrow> bool"
  symmetry_generators_of :: "pauliop \<Rightarrow> pauliop"
  generator_reconstruction :: "pauliop \<Rightarrow> pauliop \<Rightarrow> int list list \<times> bool list"
  jordan_generator_reconstruction :: "pauliop \<Rightarrow> pauliop \<Rightarrow> int list list \<times> bool list"
  clique_cover :: "pauliop \<Rightarrow> pauliop list"

text \<open>Indexing with a boolean mask: the entries where the mask is true.\<close>

definition mask_select :: "bool list \<Rightarrow> 'a list \<Rightarrow> 'a list" where
  "mask_select msk xs = map snd (filter fst (zip msk xs))"

text \<open>
  Modelled from the spec: \<open>sort\<close> of the Pauli algebra layer (not in src/), by
  descending coefficient magnitude, ties in their original order.
\<close>

definition sort_by_magnitude :: "pauliop \<Rightarrow> pauliop" where
  "sort_by_magnitude A = sort_key (\<lambda>(v, c). - cmod c) A"

subsection \<open>noncontextual_generators\<close>

text \<open>
  Lines 216-234.  The result is the symmetry generators, the cliques, the clique operator
  and the dictionary \<open>decomposed\<close> with the symmetry block added last.  The representative
  of a clique is the first term after sorting; the sum of the representatives must pass
  the check of \<open>AntiCommutingOp.__init__\<close>.  With no clique the clique operator is the
  empty operator (line 232), which is also the empty sum here.
\<close>

definition noncontextual_generators ::
  "pauli_layer \<Rightarrow> pauliop \<Rightarrow> error + (pauliop \<times> pauliop list \<times> pauliop \<times> (block_key \<times> pauliop) list)" where
  "noncontextual_generators L H =
     (let gens = symmetry_generators_of L H;
          symmetry_mask = snd (generator_reconstruction L H gens)
      in if length symmetry_mask \<noteq> length H then Inl IndexError
         else
          (let cliques = clique_cover L (mask_select (map Not symmetry_mask) H);
               decomposed = zip (map Clique [0 ..< length cliques]) cliques
           in if list_ex (\<lambda>C. C = []) cliques then Inl IndexError
              else
               (let representatives = map (\<lambda>C. hd (sort_by_magnitude C)) cliques;
                    clique_op = foldl (\<lambda>A t. op_add A [t]) [] representatives
                in if sum_list (concat (anti_comm_check (map fst clique_op))) \<noteq> 0
                   then Inl (AssertionError ''operator needs to be made of anti-commuting Pauli operators'')
                   else Inr (gens, cliques, clique_op,
                             decomposed @ [(Symmetry, mask_select symmetry_mask H)]))))"

subsection \<open>noncontextual_reconstruction\<close>

text \<open>
  Lines 248-251: the columns of the Jordan reconstruction matrix over the symmetry
  generators and over the cliques, and the masks derived from the latter.  \<open>mask_Ci\<close> is
  the transpose of \<open>C_indices\<close> as booleans, one row for each of the \<open>M\<close> cliques.
\<close>

definition set_reconstruction :: "nat \<Rightarrow> nat \<Rightarrow> int list list \<Rightarrow> noncontextual_op \<Rightarrow> noncontextual_op" where
  "set_reconstruction nG M jordan_recon_matrix nc =
     (let G = map (take nG) jordan_recon_matrix;
          C = map (drop nG) jordan_recon_matrix
      in nc\<lparr>G_indices := G,
            C_indices := C,
            mask_S0 := map (\<lambda>row. \<not> list_ex (\<lambda>x. x \<noteq> 0) row) C,
            mask_Ci := map (\<lambda>i. map (\<lambda>row. row ! i \<noteq> 0) C) [0 ..< M]\<rparr>)"

text \<open>
  Lines 255-263: the sign of a row is the real part of the coefficient of the product of
  the generators that the row selects, converted to an integer (\<open>astype(int)\<close> truncates
  towards zero).
\<close>

definition truncate_to_int :: "real \<Rightarrow> int" where
  "truncate_to_int x = (if 0 \<le> x then \<lfloor>x\<rfloor> else \<lceil>x\<rceil>)"

definition multiply_indices :: "nat \<Rightarrow> pauliop \<Rightarrow> int list \<Rightarrow> error + int" where
  "multiply_indices n noncon_generators row =
     (let selected = mask_select (map (\<lambda>x. x \<noteq> 0) row) noncon_generators;
          product = foldl (\<lambda>x y. op_mul x [y]) [(identity_row n, 1)] selected
      in case product of
           [] \<Rightarrow> Inl IndexError
         | (v, c) # _ \<Rightarrow> Inr (truncate_to_int (Re c)))"

fun collect :: "(error + 'a) list \<Rightarrow> error + 'a list" where
  "collect [] = Inr []"
| "collect (Inl e # xs) = Inl e"
| "collect (Inr x # xs) = (case collect xs of Inl e \<Rightarrow> Inl e | Inr ys \<Rightarrow> Inr (x # ys))"

text \<open>
  The generating set is the symmetry generators followed by the clique representatives,
  with \<open>n_generators + n_cliques\<close> unit coefficients; the constructor of PauliwordOp
  refuses a coefficient vector whose length is not the number of rows.
\<close>

definition noncontextual_reconstruction ::
  "pauli_layer \<Rightarrow> nat \<Rightarrow> pauliop \<Rightarrow> noncontextual_op \<Rightarrow> error + noncontextual_op" where
  "noncontextual_reconstruction L n H nc =
     (let rows = map fst (symmetry_generators nc) @ map fst (clique_operator nc);
          nG = length (symmetry_generators nc)
      in if length rows \<noteq> nG + n_cliques nc
         then Inl (ValueError ''coefficient vector does not match the symplectic matrix'')
         else
          (let noncon_generators = map (\<lambda>v. (v, 1)) rows;
               (jordan_recon_matrix, successful) = jordan_generator_reconstruction L H noncon_generators
           in if \<not> list_all id successful
              then Inl (AssertionError ''The generating set is not sufficient to reconstruct the noncontextual Hamiltonian'')
              else case collect (map (multiply_indices n noncon_generators) jordan_recon_matrix) of
                     Inl e \<Rightarrow> Inl e
                   | Inr signs \<Rightarrow>
                       Inr ((set_reconstruction nG (n_cliques nc) jordan_recon_matrix nc)
                              \<lparr>pauli_mult_signs := signs\<rparr>)))"

subsection \<open>__init__\<close>

definition NoncontextualOp :: "pauli_layer \<Rightarrow> nat \<Rightarrow> pauliop \<Rightarrow> error + noncontextual_op" where
  "NoncontextualOp L n H =
     (if \<not> is_noncontextual L H then Inl (AssertionError ''Specified operator is contextual.'')
      else case noncontextual_generators L H of
             Inl e \<Rightarrow> Inl e
           | Inr (gens, cliques, clique_op, blocks) \<Rightarrow>
               noncontextual_reconstruction L n H
                 \<lparr>nc_terms = H, symmetry_generators = gens, decomposed = blocks,
                  n_cliques = length cliques, clique_operator = clique_op,
                  G_indices = [], C_indices = [], mask_S0 = [], mask_Ci = [], pauli_mult_signs = []\<rparr>)"

subsection \<open>get_symmetry_contributions and get_energy\<close>

text \<open>
  Line 300 compares the matrix \<open>G_indices\<close> (one column for each symmetry generator) with
  the vector \<open>nu\<close>; numpy broadcasts the two when the lengths agree or one of them is 1
  and raises otherwise.  \<open>nu\<close> is a vector of reals: the solvers pass \<open>\<plusminus>1\<close>, the relaxation
  passes cosines.
\<close>

definition count_nonzero_and :: "int list \<Rightarrow> real list \<Rightarrow> nat" where
  "count_nonzero_and G_row nu =
     (if length G_row = length nu then length (filter (\<lambda>(g, v). g = 1 \<and> v = - 1) (zip G_row nu))
      else if length nu = 1 then length (filter (\<lambda>g. g = 1 \<and> hd nu = - 1) G_row)
      else length (filter (\<lambda>v. hd G_row = 1 \<and> v = - 1) nu))"

definition get_symmetry_contributions :: "noncontextual_op \<Rightarrow> real list \<Rightarrow> error + (real \<times> real list)" where
  "get_symmetry_contributions nc nu =
     (let nG = length (symmetry_generators nc) in
      if \<not> (length nu = nG \<or> length nu = 1 \<or> nG = 1)
      then Inl (ValueError ''operands could not be broadcast together'')
      else
       (let coeff_mod = map (\<lambda>(c, sign, G_row). c * of_int sign * (- 1) ^ count_nonzero_and G_row nu)
                            (zip (map snd (nc_terms nc)) (zip (pauli_mult_signs nc) (G_indices nc)));
            s0 = Re (sum_list (mask_select (mask_S0 nc) coeff_mod));
            si = map (\<lambda>mask_i. Re (sum_list (mask_select mask_i coeff_mod))) (mask_Ci nc)
        in Inr (s0, si)))"

definition get_energy :: "noncontextual_op \<Rightarrow> real list \<Rightarrow> error + real" where
  "get_energy nc nu =
     (case get_symmetry_contributions nc nu of
        Inl e \<Rightarrow> Inl e
      | Inr (s0, si) \<Rightarrow> Inr (s0 - linalg_norm si))"

section \<open>NoncontextualSolver\<close>

record noncontextual_solver =
  NC_op :: noncontextual_op
  fixed_ev_mask :: "bool list"
  fixed_eigvals :: "int list"

text \<open>\<open>__init__\<close> (lines 499-514): without a mask no symmetry generator is fixed.\<close>

definition NoncontextualSolver ::
  "noncontextual_op \<Rightarrow> bool list option \<Rightarrow> int list option \<Rightarrow> error + noncontextual_solver" where
  "NoncontextualSolver nc msk eigvals =
     (case msk of
        Some m \<Rightarrow>
          (case eigvals of
             None \<Rightarrow> Inl (AssertionError ''Must specify the fixed eigenvalues'')
           | Some ev \<Rightarrow>
               if length (filter id m) \<noteq> length ev
               then Inl (AssertionError ''Number of non-zero elements in mask does not match the number of fixed eigenvalues'')
               else Inr \<lparr>NC_op = nc, fixed_ev_mask = m, fixed_eigvals = ev\<rparr>)
      | None \<Rightarrow>
          Inr \<lparr>NC_op = nc, fixed_ev_mask = replicate (length (symmetry_generators nc)) False,
               fixed_eigvals = []\<rparr>)"

subsection \<open>energy_via_brute_force\<close>

text \<open>\<open>itertools.product([-1, 1], repeat=k)\<close>: the first position varies slowest.\<close>

fun product_pm :: "nat \<Rightarrow> int list list" where
  "product_pm 0 = [[]]"
| "product_pm (Suc k) = concat (map (\<lambda>x. map (\<lambda>r. x # r) (product_pm k)) [- 1, 1])"

text \<open>
  One row of \<open>nu_list\<close> (lines 529-531): the fixed eigenvalues at the positions of the
  mask and the free values at the other positions, each in order.  The callers check
  the lengths first, so the last equation is never reached.
\<close>

fun fill_row :: "bool list \<Rightarrow> 'a list \<Rightarrow> 'a list \<Rightarrow> 'a list" where
  "fill_row [] fixed free = []"
| "fill_row (True # m) (f # fixed) free = f # fill_row m fixed free"
| "fill_row (False # m) fixed (x # free) = x # fill_row m fixed free"
| "fill_row (b # m) fixed free = []"

text \<open>
  \<open>min\<close> with the energy as key returns the first pair of least energy; it raises on an
  empty sequence.
\<close>

fun first_min :: "real \<times> 'a \<Rightarrow> (real \<times> 'a) list \<Rightarrow> real \<times> 'a" where
  "first_min x [] = x"
| "first_min x (y # ys) = (let r = first_min y ys in if fst x \<le> fst r then x else r)"

text \<open>
  Lines 525-542.  The pool maps \<open>get_energy\<close> over the rows of \<open>nu_list\<close> and returns the
  energies in the order of the rows; an exception in a worker is raised again by
  \<open>pool.map\<close>.  The assignments of lines 530-531 need a mask as long as the rows and as
  many fixed eigenvalues as the mask has true entries.
\<close>

definition energy_via_brute_force :: "noncontextual_solver \<Rightarrow> error + (real \<times> int list)" where
  "energy_via_brute_force S =
     (let msk = fixed_ev_mask S;
          nG = length (symmetry_generators (NC_op S))
      in case (if list_all id msk then Inr [fixed_eigvals S]
               else if length msk \<noteq> nG then Inl IndexError
               else if length (filter id msk) \<noteq> length (fixed_eigvals S)
               then Inl (ValueError ''shape mismatch'')
               else Inr (map (fill_row msk (fixed_eigvals S)) (product_pm (length (filter Not msk))))) of
           Inl e \<Rightarrow> Inl e
         | Inr nu_list \<Rightarrow>
            (case collect (map (\<lambda>nu. get_energy (NC_op S) (map real_of_int nu)) nu_list) of
               Inl e \<Rightarrow> Inl e
             | Inr tracker \<Rightarrow>
                (case zip tracker nu_list of
                   [] \<Rightarrow> Inl (ValueError ''min() arg is an empty sequence'')
                 | x # xs \<Rightarrow> Inr (first_min x xs))))"

subsection \<open>energy_via_relaxation\<close>

text \<open>
  \<open>get_nu\<close> (lines 554-560) and the body (lines 552-566).  The optimizer \<open>shgo\<close> of scipy is
  a parameter: it takes the objective and the bounds and returns the point \<open>x\<close> and the
  value \<open>fun\<close> it found.  The result is the value returned and the solver with the
  coefficients of the symmetry generators set to \<open>fix_nu\<close>.
\<close>

definition get_nu :: "noncontextual_solver \<Rightarrow> real list \<Rightarrow> error + real list" where
  "get_nu S angles =
     (let msk = fixed_ev_mask S;
          nG = length (symmetry_generators (NC_op S))
      in if length msk \<noteq> nG then Inl IndexError
         else if length (filter id msk) \<noteq> length (fixed_eigvals S) \<or> length (filter Not msk) \<noteq> length angles
         then Inl (ValueError ''shape mismatch'')
         else Inr (fill_row msk (map real_of_int (fixed_eigvals S)) (map cos angles)))"

definition np_sign :: "real \<Rightarrow> real" where
  "np_sign x = (if x < 0 then - 1 else if x = 0 then 0 else 1)"

type_synonym optimizer = "(real list \<Rightarrow> error + real) \<Rightarrow> (real \<times> real) list \<Rightarrow> real list \<times> real"

definition energy_via_relaxation ::
  "optimizer \<Rightarrow> noncontextual_solver \<Rightarrow> error + ((real \<times> int list) \<times> noncontextual_solver)" where
  "energy_via_relaxation shgo S =
     (let nG = length (symmetry_generators (NC_op S));
          nu_bounds = replicate (nG - length (filter id (fixed_ev_mask S))) (0, pi);
          optimizer_output =
            shgo (\<lambda>angles. case get_nu S angles of Inl e \<Rightarrow> Inl e | Inr nu \<Rightarrow> get_energy (NC_op S) nu)
                 nu_bounds
      in case get_nu S (map cos (fst optimizer_output)) of
           Inl e \<Rightarrow> Inl e
         | Inr nu \<Rightarrow>
            (let fix_nu = map (\<lambda>x. truncate_to_int (np_sign x)) nu;
                 gens = symmetry_generators (NC_op S)
             in if length fix_nu \<noteq> length gens then Inl (ValueError ''shape mismatch'')
                else Inr ((snd optimizer_output, fix_nu),
                          S\<lparr>NC_op := (NC_op S)\<lparr>symmetry_generators :=
                               map (\<lambda>((v, c), x). (v, complex_of_int x)) (zip gens fix_nu)\<rparr>\<rparr>)))"

section \<open>Properties of the Pauli algebra layer\<close>

text \<open>
  The operator a list of terms stands for is its coefficient function \<open>coeff_of\<close>.
  \<open>weighted g A\<close> is the linear extension of a function \<open>g\<close> on rows to the operator \<open>A\<close>.
\<close>

definition weighted :: "(pvec \<Rightarrow> complex) \<Rightarrow> pauliop \<Rightarrow> complex" where
  "weighted g A = sum_list (map (\<lambda>(v, c). c * g v) A)"

lemma weighted_Nil [simp]: "weighted g [] = 0"
  by (simp add: weighted_def)

lemma weighted_Cons [simp]: "weighted g ((v, c) # A) = c * g v + weighted g A"
  by (simp add: weighted_def)

lemma weighted_append [simp]: "weighted g (A @ B) = weighted g A + weighted g B"
  by (simp add: weighted_def)

lemma weighted_concat: "weighted g (concat As) = sum_list (map (weighted g) As)"
  by (induction As) simp_all

lemma coeff_of_weighted: "coeff_of A t = weighted (\<lambda>v. if v = t then 1 else 0) A"
  by (induction A) (auto simp: coeff_of_def)

lemma coeff_of_Nil [simp]: "coeff_of [] t = 0"
  by (simp add: coeff_of_def)

lemma coeff_of_Cons: "coeff_of ((v, c) # A) t = (if v = t then c else 0) + coeff_of A t"
  by (simp add: coeff_of_def)

lemma coeff_of_absent: "t \<notin> fst ` set A \<Longrightarrow> coeff_of A t = 0"
  by (induction A) (auto simp: coeff_of_Cons)

lemma weighted_as_sum: "weighted g A = (\<Sum>v\<in>fst ` set A. coeff_of A v * g v)"
proof (induction A)
  case Nil
  then show ?case by simp
next
  case (Cons p A)
  obtain v0 c0 where p: "p = (v0, c0)" by (cases p)
  let ?S = "fst ` set A"
  have fin: "finite ?S" by simp
  have "(\<Sum>v\<in>insert v0 ?S. coeff_of ((v0, c0) # A) v * g v)
      = (\<Sum>v\<in>insert v0 ?S. (if v0 = v then c0 else 0) * g v) + (\<Sum>v\<in>insert v0 ?S. coeff_of A v * g v)"
    by (simp add: coeff_of_Cons distrib_right sum.distrib)
  also have "(\<Sum>v\<in>insert v0 ?S. (if v0 = v then c0 else 0) * g v) = c0 * g v0"
  proof -
    have "(\<Sum>v\<in>insert v0 ?S. (if v0 = v then c0 else 0) * g v) = (\<Sum>v\<in>insert v0 ?S. (if v = v0 then c0 * g v else 0))"
      by (rule sum.cong) auto
    also have "\<dots> = c0 * g v0" by (simp add: sum.delta)
    finally show ?thesis .
  qed
  also have "(\<Sum>v\<in>insert v0 ?S. coeff_of A v * g v) = (\<Sum>v\<in>?S. coeff_of A v * g v)"
  proof (cases "v0 \<in> ?S")
    case True
    then show ?thesis by (simp add: insert_absorb)
  next
    case False
    then show ?thesis using coeff_of_absent[of v0 A] by simp
  qed
  finally show ?case using Cons.IH by (simp add: p)
qed

lemma cleanup_alt:
  "cleanup A = map (\<lambda>v. (v, coeff_of A v)) (filter (\<lambda>v. coeff_of A v \<noteq> 0) (sort (remdups (map fst A))))"
  by (simp add: cleanup_def filter_map comp_def)

lemma weighted_cleanup: "weighted g (cleanup A) = weighted g A"
proof -
  let ?f = "coeff_of A"
  let ?L = "filter (\<lambda>v. ?f v \<noteq> 0) (sort (remdups (map fst A)))"
  have d: "distinct ?L" by simp
  have s: "set ?L = {v \<in> fst ` set A. ?f v \<noteq> 0}" by auto
  have "weighted g (cleanup A) = sum_list (map (\<lambda>v. ?f v * g v) ?L)"
    by (simp add: cleanup_alt weighted_def comp_def)
  also have "\<dots> = (\<Sum>v\<in>set ?L. ?f v * g v)"
    using d by (simp add: sum_list_distinct_conv_sum_set)
  also have "\<dots> = (\<Sum>v\<in>fst ` set A. ?f v * g v)"
    unfolding s by (rule sum.mono_neutral_left) auto
  finally show ?thesis by (simp add: weighted_as_sum)
qed

lemma coeff_of_cleanup: "coeff_of (cleanup A) t = coeff_of A t"
  by (simp add: coeff_of_weighted weighted_cleanup)

lemma cleanup_cong:
  assumes "\<And>t. coeff_of A t = coeff_of B t"
  shows "cleanup A = cleanup B"
proof -
  let ?f = "coeff_of A"
  let ?LA = "filter (\<lambda>v. ?f v \<noteq> 0) (sort (remdups (map fst A)))"
  let ?LB = "filter (\<lambda>v. ?f v \<noteq> 0) (sort (remdups (map fst B)))"
  have fB: "coeff_of B = ?f" using assms by auto
  have "set ?LA = {v. ?f v \<noteq> 0}" using coeff_of_absent[of _ A] by auto
  moreover have "set ?LB = {v. ?f v \<noteq> 0}" using coeff_of_absent[of _ B] fB by auto
  ultimately  have eq: "set ?LA = set ?LB" by simp
  have sA: "sorted ?LA" and sB: "sorted ?LB" by (simp_all add: sorted_wrt_filter)
  have dA: "distinct ?LA" and dB: "distinct ?LB" by simp_all
  have "?LA = ?LB" by (rule sorted_distinct_set_unique[OF sA dA sB dB eq])
  then show ?thesis by (simp add: cleanup_alt fB)
qed

lemma cleanup_idem: "cleanup (cleanup A) = cleanup A"
  by (rule cleanup_cong) (simp add: coeff_of_cleanup)

lemma coeff_of_append: "coeff_of (A @ B) t = coeff_of A t + coeff_of B t"
  by (simp add: coeff_of_def)

subsection \<open>Phases of products of three terms\<close>

definition xorq :: "bool \<times> bool \<Rightarrow> bool \<times> bool \<Rightarrow> bool \<times> bool" where
  "xorq p q = (fst p \<noteq> fst q, snd p \<noteq> snd q)"

definition acq :: "bool \<times> bool \<Rightarrow> bool \<times> bool \<Rightarrow> nat" where
  "acq p q = (if qubit_anticommutes p q then 1 else 0)"

lemma qubit_conj_phase_bits:
  "\<i> ^ (qubit_phase (x1, z1) (x2, z2) + qubit_phase (xorq (x1, z1) (x2, z2)) (x1, z1)) = (- 1) ^ acq (x2, z2) (x1, z1)"
  by (cases x1; cases z1; cases x2; cases z2; simp add: xorq_def acq_def power3_eq_cube)

lemma qubit_conj_phase:
  "\<i> ^ (qubit_phase p a + qubit_phase (xorq p a) p) = (- 1) ^ acq a p"
proof -
  obtain x1 z1 where p: "p = (x1, z1)" by (cases p)
  obtain x2 z2 where a: "a = (x2, z2)" by (cases a)
  show ?thesis unfolding p a by (rule qubit_conj_phase_bits)
qed

lemma qubit_swap_phase_bits:
  "\<i> ^ (qubit_phase (x3, z3) (x2, z2) + qubit_phase (xorq (x3, z3) (x2, z2)) (x1, z1))
     = (- 1) ^ (acq (x2, z2) (x1, z1) + acq (x2, z2) (x3, z3) + acq (x1, z1) (x3, z3))
       * \<i> ^ (qubit_phase (x1, z1) (x2, z2) + qubit_phase (xorq (x1, z1) (x2, z2)) (x3, z3))"
  by (cases x1; cases z1; cases x2; cases z2; cases x3; cases z3; simp add: xorq_def acq_def power3_eq_cube)

lemma qubit_swap_phase:
  "\<i> ^ (qubit_phase j a + qubit_phase (xorq j a) i)
     = (- 1) ^ (acq a i + acq a j + acq i j) * \<i> ^ (qubit_phase i a + qubit_phase (xorq i a) j)"
proof -
  obtain x1 z1 where i: "i = (x1, z1)" by (cases i)
  obtain x2 z2 where a: "a = (x2, z2)" by (cases a)
  obtain x3 z3 where j: "j = (x3, z3)" by (cases j)
  show ?thesis unfolding i j a by (rule qubit_swap_phase_bits)
qed

lemma zip_map2:
  "zip (map2 f a b) (map2 f c d) = map2 (\<lambda>p q. (f (fst p) (fst q), f (snd p) (snd q))) (zip a c) (zip b d)"
proof (induction a arbitrary: b c d)
  case Nil
  then show ?case by simp
next
  case (Cons x a)
  then show ?case by (cases b; cases c; cases d) simp_all
qed

lemma qubits_xor_rows:
  assumes "length v = length w"
  shows "qubits (xor_rows v w) = map2 xorq (qubits v) (qubits w)"
proof -
  have "(\<lambda>p q. (fst p \<noteq> fst q, snd p \<noteq> snd q)) = xorq" by (auto simp: xorq_def fun_eq_iff)
  then show ?thesis
    using assms by (simp add: qubits_def xor_rows_def X_block_def Z_block_def take_map drop_map take_zip drop_zip zip_map2)
qed

lemma length_qubits: "length (qubits v) = length v div 2"
  by (simp add: qubits_def X_block_def Z_block_def) 

lemma list_conj_phase:
  assumes "length ps = length as"
  shows "\<i> ^ (sum_list (map2 qubit_phase ps as) + sum_list (map2 qubit_phase (map2 xorq ps as) ps))
       = (- 1) ^ sum_list (map2 acq as ps)"
  using assms
proof (induction ps as rule: list_induct2)
  case Nil
  then show ?case by simp
next
  case (Cons p ps a as)
  have "\<i> ^ (qubit_phase p a + sum_list (map2 qubit_phase ps as) + (qubit_phase (xorq p a) p + sum_list (map2 qubit_phase (map2 xorq ps as) ps)))
      = \<i> ^ (qubit_phase p a + qubit_phase (xorq p a) p) * \<i> ^ (sum_list (map2 qubit_phase ps as) + sum_list (map2 qubit_phase (map2 xorq ps as) ps))"
    by (simp add: power_add)
  also have "\<dots> = (- 1) ^ acq a p * (- 1) ^ sum_list (map2 acq as ps)"
    by (simp only: qubit_conj_phase[of p a] Cons.IH)
  also have "\<dots> = (- 1) ^ sum_list (map2 acq (a # as) (p # ps))"
    by (simp add: power_add)
  finally show ?case by (simp add: add.assoc)
qed

lemma list_swap_phase:
  assumes "length js = length as" "length as = length is"
  shows "\<i> ^ (sum_list (map2 qubit_phase js as) + sum_list (map2 qubit_phase (map2 xorq js as) is))
       = (- 1) ^ (sum_list (map2 acq as is) + sum_list (map2 acq as js) + sum_list (map2 acq is js))
         * \<i> ^ (sum_list (map2 qubit_phase is as) + sum_list (map2 qubit_phase (map2 xorq is as) js))"
  using assms
proof (induction js as "is" rule: list_induct3)
  case Nil
  then show ?case by simp
next
  case (Cons j js a as i "is")
  have "\<i> ^ (sum_list (map2 qubit_phase (j # js) (a # as)) + sum_list (map2 qubit_phase (map2 xorq (j # js) (a # as)) (i # is)))
      = \<i> ^ (qubit_phase j a + qubit_phase (xorq j a) i) * \<i> ^ (sum_list (map2 qubit_phase js as) + sum_list (map2 qubit_phase (map2 xorq js as) is))"
    by (simp add: power_add)
  also have "\<dots> = ((- 1) ^ (acq a i + acq a j + acq i j) * \<i> ^ (qubit_phase i a + qubit_phase (xorq i a) j))
         * ((- 1) ^ (sum_list (map2 acq as is) + sum_list (map2 acq as js) + sum_list (map2 acq is js))
         * \<i> ^ (sum_list (map2 qubit_phase is as) + sum_list (map2 qubit_phase (map2 xorq is as) js)))"
    by (simp only: qubit_swap_phase[of j a i] Cons.IH)
  also have "\<dots> = (- 1) ^ (sum_list (map2 acq (a # as) (i # is)) + sum_list (map2 acq (a # as) (j # js)) + sum_list (map2 acq (i # is) (j # js)))
         * \<i> ^ (sum_list (map2 qubit_phase (i # is) (a # as)) + sum_list (map2 qubit_phase (map2 xorq (i # is) (a # as)) (j # js)))"
    by (simp add: power_add)
  finally show ?case .
qed

lemma anticommuting_count_acq: "anticommuting_count v w = sum_list (map2 acq (qubits v) (qubits w))"
proof -
  have "length (filter (\<lambda>(p, q). qubit_anticommutes p q) xs) = sum_list (map (\<lambda>(p, q). acq p q) xs)" for xs
    by (induction xs) (auto simp: acq_def)
  then show ?thesis by (simp add: anticommuting_count_def)
qed

lemma minus_one_power_commutes:
  "(- 1 :: complex) ^ anticommuting_count v w = (- 1) ^ (if commutes v w then 0 else (1::nat))"
  by (auto simp: commutes_def)

lemma row_conj_phase:
  assumes "length p = length a"
  shows "\<i> ^ phase_exponent p a * \<i> ^ phase_exponent (xor_rows p a) p = (- 1) ^ (if commutes a p then 0 else (1::nat))"
proof -
  have "length (qubits p) = length (qubits a)" using assms by (simp add: length_qubits)
  from list_conj_phase[OF this] show ?thesis
    unfolding minus_one_power_commutes[symmetric] anticommuting_count_acq
    by (simp add: phase_exponent_def qubits_xor_rows[OF assms] power_add)
qed

lemma row_swap_phase:
  assumes "length j = length a" "length a = length i"
  shows "\<i> ^ phase_exponent j a * \<i> ^ phase_exponent (xor_rows j a) i
       = (- 1) ^ ((if commutes a i then 0 else (1::nat)) + (if commutes a j then 0 else 1) + (if commutes i j then 0 else 1))
         * (\<i> ^ phase_exponent i a * \<i> ^ phase_exponent (xor_rows i a) j)"
proof -
  have l: "length (qubits j) = length (qubits a)" "length (qubits a) = length (qubits i)"
    using assms by (simp_all add: length_qubits)
  have ia: "length i = length a" using assms by simp
  have "(- 1 :: complex) ^ ((if commutes a i then 0 else (1::nat)) + (if commutes a j then 0 else 1) + (if commutes i j then 0 else 1))
      = (- 1) ^ (anticommuting_count a i + anticommuting_count a j + anticommuting_count i j)"
    by (simp only: power_add minus_one_power_commutes)
  then show ?thesis
    using list_swap_phase[OF l]
    by (simp add: anticommuting_count_acq phase_exponent_def qubits_xor_rows[OF assms(1)] qubits_xor_rows[OF ia] power_add)
qed

lemma xor_rows_cancel:
  assumes "length p = length a"
  shows "xor_rows (xor_rows p a) p = a"
  using assms unfolding xor_rows_def
  by (induction p a rule: list_induct2) auto

lemma xor_rows_swap:
  assumes "length j = length a" "length a = length i"
  shows "xor_rows (xor_rows j a) i = xor_rows (xor_rows i a) j"
  using assms unfolding xor_rows_def
  by (induction j a i rule: list_induct3) auto

subsection \<open>Coefficients of products\<close>

definition rmul :: "(pvec \<Rightarrow> complex) \<Rightarrow> pauliop \<Rightarrow> pvec \<Rightarrow> complex" where
  "rmul g B v = sum_list (map (\<lambda>(w, d). d * (\<i> ^ phase_exponent v w * g (xor_rows v w))) B)"

lemma weighted_map_mul: "weighted g (map (\<lambda>(w, d). mul_symplectic v c w d) B) = c * rmul g B v"
  by (induction B) (auto simp: rmul_def mul_symplectic_def algebra_simps)

lemma weighted_raw_product: "weighted g (raw_product A B) = weighted (rmul g B) A"
  by (induction A) (auto simp: raw_product_def weighted_map_mul)

lemma sum_list_index: "sum_list (map f xs) = (\<Sum>i<length xs. f (xs ! i))"
  by (simp add: sum_list_sum_nth atLeast0LessThan)

lemma weighted_index: "weighted g A = (\<Sum>i<length A. snd (A ! i) * g (fst (A ! i)))"
  by (simp add: weighted_def sum_list_index case_prod_unfold)

lemma rmul_index:
  "rmul g B v = (\<Sum>j<length B. snd (B ! j) * (\<i> ^ phase_exponent v (fst (B ! j)) * g (xor_rows v (fst (B ! j)))))"
  by (simp add: rmul_def sum_list_index case_prod_unfold)

lemma sum_list_upt_conv: "sum_list (map f [a..<b]) = sum f {a..<b}"
  by (simp add: interv_sum_list_conv_sum_set_nat)

lemma sum_diagonal_upper:
  fixes f :: "nat \<Rightarrow> nat \<Rightarrow> complex"
  shows "(\<Sum>i<m. \<Sum>j<m. f i j) = (\<Sum>i<m. f i i + (\<Sum>j = Suc i..<m. f i j + f j i))"
proof (induction m)
  case 0
  then show ?case by simp
next
  case (Suc m)
  have "(\<Sum>i<Suc m. \<Sum>j<Suc m. f i j) = (\<Sum>i<m. \<Sum>j<m. f i j) + (\<Sum>i<m. f i m) + (\<Sum>j<m. f m j) + f m m"
    by (simp add: sum.distrib algebra_simps)
  moreover have "(\<Sum>i<Suc m. f i i + (\<Sum>j = Suc i..<Suc m. f i j + f j i))
      = (\<Sum>i<m. f i i + (\<Sum>j = Suc i..<m. f i j + f j i)) + (\<Sum>i<m. f i m + f m i) + f m m"
  proof -
    have "(\<Sum>i<m. f i i + (\<Sum>j = Suc i..<Suc m. f i j + f j i))
        = (\<Sum>i<m. (f i i + (\<Sum>j = Suc i..<m. f i j + f j i)) + (f i m + f m i))"
      by (rule sum.cong) (simp_all add: add.assoc)
    then show ?thesis by (simp add: sum.distrib)
  qed
  ultimately show ?case using Suc.IH by (simp add: sum.distrib algebra_simps)
qed

section \<open>Correctness of conjugate_Pop_with_R\<close>

definition delta :: "pvec \<Rightarrow> pvec \<Rightarrow> complex" where
  "delta t v = (if v = t then 1 else 0)"

lemma coeff_of_delta: "coeff_of A t = weighted (delta t) A"
  unfolding delta_def by (rule coeff_of_weighted)

definition triple_term :: "pauliop \<Rightarrow> pauliop \<Rightarrow> pvec \<Rightarrow> nat \<Rightarrow> nat \<Rightarrow> nat \<Rightarrow> complex" where
  "triple_term Pop R t i a j =
     snd (R ! i) * (snd (Pop ! a) * (\<i> ^ phase_exponent (fst (R ! i)) (fst (Pop ! a)) *
       (cnj (snd (R ! j)) * (\<i> ^ phase_exponent (xor_rows (fst (R ! i)) (fst (Pop ! a))) (fst (R ! j)) *
          delta t (xor_rows (xor_rows (fst (R ! i)) (fst (Pop ! a))) (fst (R ! j)))))))"

lemma naive_coeff:
  "coeff_of (cleanup (op_mul (op_mul R Pop) (dagger R))) t
     = (\<Sum>i<length R. \<Sum>a<length Pop. \<Sum>j<length R. triple_term Pop R t i a j)"
proof -
  have dag: "rmul g (dagger R) v
      = (\<Sum>j<length R. cnj (snd (R ! j)) * (\<i> ^ phase_exponent v (fst (R ! j)) * g (xor_rows v (fst (R ! j)))))" for g v
    unfolding rmul_index by (simp add: dagger_def case_prod_unfold)
  have "coeff_of (cleanup (op_mul (op_mul R Pop) (dagger R))) t
      = weighted (rmul (rmul (delta t) (dagger R)) Pop) R"
    by (simp add: coeff_of_cleanup op_mul_def coeff_of_delta weighted_cleanup weighted_raw_product)
  also have "\<dots> = (\<Sum>i<length R. \<Sum>a<length Pop. \<Sum>j<length R. triple_term Pop R t i a j)"
    unfolding weighted_index rmul_index[of _ Pop] dag triple_term_def
    by (simp add: sum_distrib_left)
  finally show ?thesis .
qed

definition cc :: "pvec \<Rightarrow> pvec \<Rightarrow> nat" where
  "cc v w = (if commutes v w then 0 else 1)"

definition diag_term :: "pauliop \<Rightarrow> pauliop \<Rightarrow> pvec \<Rightarrow> nat \<Rightarrow> nat \<Rightarrow> complex" where
  "diag_term Pop R t a i =
     snd (R ! i) * cnj (snd (R ! i)) * snd (Pop ! a) * (- 1) ^ cc (fst (Pop ! a)) (fst (R ! i)) * delta t (fst (Pop ! a))"

definition upper_term :: "pauliop \<Rightarrow> pauliop \<Rightarrow> pvec \<Rightarrow> nat \<Rightarrow> nat \<Rightarrow> nat \<Rightarrow> complex" where
  "upper_term Pop R t a i j =
     (snd (R ! i) * snd (Pop ! a) * cnj (snd (R ! j))
        + (- 1) ^ (cc (fst (Pop ! a)) (fst (R ! i)) + cc (fst (Pop ! a)) (fst (R ! j)) + cc (fst (R ! i)) (fst (R ! j)))
          * (snd (R ! j) * snd (Pop ! a) * cnj (snd (R ! i))))
     * (\<i> ^ phase_exponent (fst (R ! i)) (fst (Pop ! a))
        * \<i> ^ phase_exponent (xor_rows (fst (R ! i)) (fst (Pop ! a))) (fst (R ! j)))
     * delta t (xor_rows (xor_rows (fst (R ! i)) (fst (Pop ! a))) (fst (R ! j)))"

lemma commutation_check_nth:
  assumes "a < length A" "i < length B"
  shows "negated_as_int (commutes_termwise A B) ! a ! i = cc (fst (A ! a)) (fst (B ! i))"
  using assms by (simp add: negated_as_int_def commutes_termwise_def case_prod_unfold cc_def)

lemma optimized_coeff:
  assumes "length Pop \<noteq> 1"
  shows "coeff_of (conjugate_Pop_with_R Pop R) t
     = (\<Sum>a<length Pop. \<Sum>i<length R. diag_term Pop R t a i + (\<Sum>j = Suc i..<length R. upper_term Pop R t a i j))"
proof -
  let ?m = "length R"
  define inner where "inner = (\<lambda>a i j. (let Pj_vec = fst (R ! j);
                            sign2 = (- 1) ^ (negated_as_int (commutes_termwise Pop R) ! a ! i
                                             + negated_as_int (commutes_termwise Pop R) ! a ! j
                                             + negated_as_int (adjacency_matrix R) ! i ! j);
                            coeff1 = map snd R ! i * map snd Pop ! a * cnj (map snd R ! j);
                            coeff2 = map snd R ! j * map snd Pop ! a * cnj (map snd R ! i);
                            overall_coeff = coeff1 + sign2 * coeff2
                        in if overall_coeff \<noteq> 0
                           then [mul_symplectic (fst (mul_symplectic (fst (R ! i)) 1 (fst (Pop ! a)) 1))
                                    (snd (mul_symplectic (fst (R ! i)) 1 (fst (Pop ! a)) 1)) Pj_vec overall_coeff]
                           else []))"
  have inner: "weighted (delta t) (inner a i j) = upper_term Pop R t a i j"
    if "a < length Pop" "i < ?m" "j < ?m" for a i j
    using that
    by (simp add: inner_def Let_def commutation_check_nth adjacency_matrix_def upper_term_def mul_symplectic_def)
  define block where "block = (\<lambda>a i. (fst (Pop ! a), map snd R ! i * cnj (map snd R ! i) * map snd Pop ! a
                        * (- 1) ^ (negated_as_int (commutes_termwise Pop R) ! a ! i))
                     # concat (map (inner a i) [i + 1 ..< ?m]))"
  have block: "weighted (delta t) (block a i) = diag_term Pop R t a i + (\<Sum>j = Suc i..<?m. upper_term Pop R t a i j)"
    if "a < length Pop" "i < ?m" for a i
  proof -
    have "sum_list (map (\<lambda>j. weighted (delta t) (inner a i j)) [i + 1 ..< ?m]) = (\<Sum>j = Suc i..<?m. upper_term Pop R t a i j)"
      unfolding sum_list_upt_conv
    proof (rule sum.cong)
      show "{i + 1..<?m} = {Suc i..<?m}" by simp
    next
      fix j assume "j \<in> {Suc i..<?m}"
      then have "j < ?m" by simp
      then show "weighted (delta t) (inner a i j) = upper_term Pop R t a i j"
        using that by (intro inner)
    qed
    then show ?thesis
      using that by (simp add: block_def weighted_concat comp_def commutation_check_nth diag_term_def)
  qed
  have eq: "conjugate_Pop_with_R Pop R = cleanup (concat (map (\<lambda>a. concat (map (block a) [0..<?m])) [0..<length Pop]))"
    using assms by (simp add: conjugate_Pop_with_R_def Let_def block_def inner_def)
  have "coeff_of (conjugate_Pop_with_R Pop R) t
      = (\<Sum>a = 0..<length Pop. \<Sum>i = 0..<?m. weighted (delta t) (block a i))"
    unfolding eq
    by (simp add: coeff_of_delta weighted_cleanup weighted_concat comp_def sum_list_upt_conv del: upt_Suc)
  also have "\<dots> = (\<Sum>a<length Pop. \<Sum>i<?m. diag_term Pop R t a i + (\<Sum>j = Suc i..<?m. upper_term Pop R t a i j))"
    unfolding atLeast0LessThan
  proof (intro sum.cong refl)
    fix a i assume "a \<in> {..<length Pop}" "i \<in> {..<?m}"
    then have "a < length Pop" "i < ?m" by simp_all
    then show "weighted (delta t) (block a i) = diag_term Pop R t a i + (\<Sum>j = Suc i..<?m. upper_term Pop R t a i j)"
      by (rule block)
  qed
  finally show ?thesis .
qed

lemma triple_diag:
  assumes "length (fst (R ! i)) = length (fst (Pop ! a))"
  shows "triple_term Pop R t i a i = diag_term Pop R t a i"
proof -
  let ?P = "fst (R ! i)" and ?Q = "fst (Pop ! a)"
  have ph: "\<i> ^ phase_exponent ?P ?Q * \<i> ^ phase_exponent (xor_rows ?P ?Q) ?P = (- 1) ^ cc ?Q ?P"
    using row_conj_phase[OF assms] by (simp add: cc_def)
  have "triple_term Pop R t i a i
      = snd (R ! i) * cnj (snd (R ! i)) * snd (Pop ! a)
        * (\<i> ^ phase_exponent ?P ?Q * \<i> ^ phase_exponent (xor_rows ?P ?Q) ?P) * delta t ?Q"
    by (simp add: triple_term_def xor_rows_cancel[OF assms])
  then show ?thesis unfolding ph by (simp add: diag_term_def)
qed

lemma triple_upper:
  assumes "length (fst (R ! j)) = length (fst (Pop ! a))" "length (fst (Pop ! a)) = length (fst (R ! i))"
  shows "triple_term Pop R t i a j + triple_term Pop R t j a i = upper_term Pop R t a i j"
proof -
  let ?Pi = "fst (R ! i)" and ?Pj = "fst (R ! j)" and ?Q = "fst (Pop ! a)"
  let ?ph = "\<i> ^ phase_exponent ?Pi ?Q * \<i> ^ phase_exponent (xor_rows ?Pi ?Q) ?Pj"
  let ?s = "(- 1 :: complex) ^ (cc ?Q ?Pi + cc ?Q ?Pj + cc ?Pi ?Pj)"
  have ph: "\<i> ^ phase_exponent ?Pj ?Q * \<i> ^ phase_exponent (xor_rows ?Pj ?Q) ?Pi = ?s * ?ph"
    using row_swap_phase[OF assms] by (simp add: cc_def)
  have x: "xor_rows (xor_rows ?Pj ?Q) ?Pi = xor_rows (xor_rows ?Pi ?Q) ?Pj"
    by (rule xor_rows_swap[OF assms])
  let ?d = "delta t (xor_rows (xor_rows ?Pi ?Q) ?Pj)"
  have 1: "triple_term Pop R t i a j = snd (R ! i) * snd (Pop ! a) * cnj (snd (R ! j)) * ?ph * ?d"
    by (simp add: triple_term_def)
  have "triple_term Pop R t j a i = snd (R ! j) * snd (Pop ! a) * cnj (snd (R ! i))
           * (\<i> ^ phase_exponent ?Pj ?Q * \<i> ^ phase_exponent (xor_rows ?Pj ?Q) ?Pi) * ?d"
    by (simp add: triple_term_def x)
  then have 2: "triple_term Pop R t j a i = snd (R ! j) * snd (Pop ! a) * cnj (snd (R ! i)) * (?s * ?ph) * ?d"
    unfolding ph .
  show ?thesis unfolding 1 2 upper_term_def by (simp add: algebra_simps)
qed

text \<open>
  Claim C3: for every operator \<open>Pop\<close> and every rotation operator \<open>R\<close> over the same
  number \<open>n\<close> of qubits, \<open>conjugate_Pop_with_R Pop R\<close> equals the naive conjugation
  \<open>R * Pop * R.dagger\<close> after cleanup; the term-by-term loop used when \<open>Pop\<close> has more
  than one term agrees with the triple product.
\<close>

theorem conjugate_Pop_with_R_correct:
  assumes wfP: "\<forall>v \<in> fst ` set Pop. length v = 2 * n" and wfR: "\<forall>v \<in> fst ` set R. length v = 2 * n"
  shows "conjugate_Pop_with_R Pop R = cleanup (op_mul (op_mul R Pop) (dagger R))"
proof (cases "length Pop = 1")
  case True
  then show ?thesis by (simp add: conjugate_Pop_with_R_def)
next
  case False
  let ?naive = "cleanup (op_mul (op_mul R Pop) (dagger R))"
  let ?m = "length R" and ?p = "length Pop"
  have lenR: "length (fst (R ! i)) = 2 * n" if "i < ?m" for i
    using wfR that by (metis image_eqI nth_mem)
  have lenP: "length (fst (Pop ! a)) = 2 * n" if "a < ?p" for a
    using wfP that by (metis image_eqI nth_mem)
  have coeff: "coeff_of (conjugate_Pop_with_R Pop R) t = coeff_of ?naive t" for t
  proof -
    have "coeff_of ?naive t = (\<Sum>i<?m. \<Sum>a<?p. \<Sum>j<?m. triple_term Pop R t i a j)"
      by (rule naive_coeff)
    also have "\<dots> = (\<Sum>a<?p. \<Sum>i<?m. \<Sum>j<?m. triple_term Pop R t i a j)"
      by (rule sum.swap)
    also have "\<dots> = (\<Sum>a<?p. \<Sum>i<?m. triple_term Pop R t i a i
                        + (\<Sum>j = Suc i..<?m. triple_term Pop R t i a j + triple_term Pop R t j a i))"
      by (simp only: sum_diagonal_upper)
    also have "\<dots> = (\<Sum>a<?p. \<Sum>i<?m. diag_term Pop R t a i + (\<Sum>j = Suc i..<?m. upper_term Pop R t a i j))"
    proof (intro sum.cong refl arg_cong2[where f = "(+)"])
      fix a i assume "a \<in> {..<?p}" "i \<in> {..<?m}"
      then show "triple_term Pop R t i a i = diag_term Pop R t a i"
        by (intro triple_diag) (simp add: lenR lenP)
    next
      fix a i j assume "a \<in> {..<?p}" "i \<in> {..<?m}" "j \<in> {Suc i..<?m}"
      then show "triple_term Pop R t i a j + triple_term Pop R t j a i = upper_term Pop R t a i j"
        by (intro triple_upper) (simp_all add: lenR lenP)
    qed
    also have "\<dots> = coeff_of (conjugate_Pop_with_R Pop R) t"
      by (rule optimized_coeff[OF False, symmetric])
    finally show ?thesis by simp
  qed
  have "cleanup (conjugate_Pop_with_R Pop R) = cleanup ?naive"
    by (rule cleanup_cong) (rule coeff)
  moreover have "cleanup (conjugate_Pop_with_R Pop R) = conjugate_Pop_with_R Pop R"
    using False by (simp add: conjugate_Pop_with_R_def Let_def cleanup_idem)
  ultimately show ?thesis by (simp add: cleanup_idem)
qed

theorem conjugate_Pop_with_R_correct_witness:
  "list_all (\<lambda>(v, c). length v = 2 * 2) [(pauli_row ''XY'', 1), (pauli_row ''ZZ'', 2), (pauli_row ''IY'', \<i>)]
   \<and> list_all (\<lambda>(v, c). length v = 2 * 2) [(pauli_row ''IX'', 3 / 5), (pauli_row ''YZ'', 4 / 5 * \<i>), (pauli_row ''ZX'', 1 + \<i>)]
   \<and> conjugate_Pop_with_R [(pauli_row ''XY'', 1), (pauli_row ''ZZ'', 2), (pauli_row ''IY'', \<i>)]
          [(pauli_row ''IX'', 3 / 5), (pauli_row ''YZ'', 4 / 5 * \<i>), (pauli_row ''ZX'', 1 + \<i>)]
       = cleanup (op_mul (op_mul [(pauli_row ''IX'', 3 / 5), (pauli_row ''YZ'', 4 / 5 * \<i>), (pauli_row ''ZX'', 1 + \<i>)]
                                 [(pauli_row ''XY'', 1), (pauli_row ''ZZ'', 2), (pauli_row ''IY'', \<i>)])
                         (dagger [(pauli_row ''IX'', 3 / 5), (pauli_row ''YZ'', 4 / 5 * \<i>), (pauli_row ''ZX'', 1 + \<i>)]))"
  using conjugate_Pop_with_R_correct[of "[(pauli_row ''XY'', 1), (pauli_row ''ZZ'', 2), (pauli_row ''IY'', \<i>)]" 2
          "[(pauli_row ''IX'', 3 / 5), (pauli_row ''YZ'', 4 / 5 * \<i>), (pauli_row ''ZX'', 1 + \<i>)]"]
  by (simp add: pauli_row_def)

section \<open>Properties of the sequence of rotations\<close>

lemmas row_simps = pauli_row_def X_block_def Z_block_def qubits_def

lemma arctan_zeroes:
  assumes "bs \<noteq> 0"
  shows "bk * cos (arctan (bk / bs)) - bs * sin (arctan (bk / bs)) = 0"
proof -
  have "sqrt (1 + (bk / bs)\<^sup>2) \<noteq> 0"
    by (smt (verit) real_sqrt_gt_zero zero_le_power2)
  then show ?thesis using assms
    by (simp add: cos_arctan sin_arctan field_simps)
qed

lemma theta_sk_nonzero:
  assumes "bs \<noteq> 0"
  shows "theta_sk bs bk = Some (arctan (bk / bs) + (if bs < 0 then pi else 0))"
  using assms by (simp add: theta_sk_def arctan_quotient_def)

lemma theta_sk_zeroes:
  assumes "theta_sk bs bk = Some th"
  shows "bk * cos th - bs * sin th = 0"
proof (cases "bs = 0")
  case True
  with assms have "bk \<noteq> 0" and th: "th = sgn bk * (pi / 2)"
    by (auto simp: theta_sk_def arctan_quotient_def split: if_splits)
  have "cos th = 0" unfolding th by (cases "bk > 0") (use \<open>bk \<noteq> 0\<close> in \<open>simp_all add: sgn_if\<close>)
  with True show ?thesis by simp
next
  case False
  with assms have th: "th = arctan (bk / bs) + (if bs < 0 then pi else 0)"
    by (simp add: theta_sk_nonzero)
  show ?thesis using arctan_zeroes[OF False, of bk] unfolding th
    by (auto simp: algebra_simps)
qed

lemma isclose_zero: "isclose 0 0"
  by (simp add: isclose_def)


lemma rsr_step:
  assumes "theta_sk bs bk = Some th"
  shows "recursive_seq_rotations rots ((Ps, bs) # (Pk, bk) # rest) =
         recursive_seq_rotations (rots @ [recorded_rotation (X_sk Ps Pk) th]) ((Ps, sqrt (bs ^ 2 + bk ^ 2)) # rest)"
  using assms theta_sk_zeroes[OF assms] by (simp add: isclose_zero)

lemma sqrt_sum_squares_nonzero: "bs \<noteq> 0 \<Longrightarrow> sqrt (bs\<^sup>2 + bk\<^sup>2) \<noteq> (0::real)"
  by (metis real_sqrt_eq_zero_cancel_iff sum_power2_eq_zero_iff)

lemma rsr_total:
  assumes "bs \<noteq> 0"
  shows "\<exists>new c. recursive_seq_rotations rots ((Ps, bs) # ks) = (rots @ new, Inr [(Ps, c)])
           \<and> length new = length ks \<and> \<bar>c\<bar> = sqrt (bs\<^sup>2 + sum_list (map (\<lambda>(P, b). b\<^sup>2) ks))"
  using assms
proof (induction ks arbitrary: rots bs)
  case Nil
  then show ?case by simp
next
  case (Cons k ks)
  obtain Pk bk where k: "k = (Pk, bk)" by (cases k)
  obtain th where th: "theta_sk bs bk = Some th"
    using Cons.prems by (simp add: theta_sk_nonzero)
  from Cons.IH[OF sqrt_sum_squares_nonzero[OF Cons.prems, of bk], of "rots @ [recorded_rotation (X_sk Ps Pk) th]"]
  obtain new c where *: "recursive_seq_rotations (rots @ [recorded_rotation (X_sk Ps Pk) th]) ((Ps, sqrt (bs\<^sup>2 + bk\<^sup>2)) # ks)
       = ((rots @ [recorded_rotation (X_sk Ps Pk) th]) @ new, Inr [(Ps, c)])"
    and len: "length new = length ks"
    and c: "\<bar>c\<bar> = sqrt ((sqrt (bs\<^sup>2 + bk\<^sup>2))\<^sup>2 + sum_list (map (\<lambda>(P, b). b\<^sup>2) ks))"
    by blast
  show ?case
    apply (rule exI[of _ "recorded_rotation (X_sk Ps Pk) th # new"], rule exI[of _ c])
    unfolding k rsr_step[OF th]
    using * len c by (simp add: add.assoc del: recursive_seq_rotations.simps)
qed

lemma linalg_norm_nonzero:
  assumes "b \<noteq> 0"
  shows "linalg_norm (b # bs) \<noteq> 0"
proof -
  have nn: "0 \<le> sum_list (map (\<lambda>x. x\<^sup>2) bs)"
    by (rule sum_list_nonneg) auto
  have pos: "0 < b\<^sup>2" using assms by simp
  have "sum_list (map (\<lambda>x. x\<^sup>2) (b # bs)) > 0"
    unfolding list.map sum_list.Cons by (rule add_pos_nonneg[OF pos nn])
  then show ?thesis by (simp add: linalg_norm_def)
qed

lemma up_seq_rot_head:
  assumes "length (terms_of self) \<noteq> 1" "select_target self s = Inr 0"
    and "symp_matrix self = P # rows" "coeff_vec self = b # bs" "b \<noteq> 0"
  shows "\<exists>c rots g ac. snd (unitary_partitioning self s ''seq_rot'') = Returned ([(P, c)], rots, g, ac)"
proof -
  define g where "g = linalg_norm (coeff_vec self)"
  have g: "g \<noteq> 0" using linalg_norm_nonzero[OF assms(5)] by (simp add: g_def assms)
  have tf: "target_first self 0 = Inr (P # rows, b # bs)"
    by (simp add: target_first_def assms)
  obtain new c where r: "recursive_seq_rotations [] ((P, b / g) # zip rows (map (\<lambda>c. c / g) bs)) = ([] @ new, Inr [(P, c)])"
    using rsr_total[of "b / g" "[]" P "zip rows (map (\<lambda>c. c / g) bs)"] g assms(5) by auto
  show ?thesis
    using assms(1,2) g r
    by (simp add: unitary_partitioning_def tf g_def[symmetric] Let_def del: recursive_seq_rotations.simps)
qed

subsection \<open>Two small cliques\<close>

lemma X_sk_X_Z: "X_sk (pauli_row ''X'') (pauli_row ''Z'') = (pauli_row ''Y'', - 1)"
  by (simp add: X_sk_def mul_symplectic_def xor_rows_def phase_exponent_def row_simps power3_eq_cube)

lemma linalg_norm_3_4: "linalg_norm [3, 4] = 5"
proof -
  have "sqrt 25 = sqrt (5\<^sup>2)" by simp
  then show ?thesis by (simp add: linalg_norm_def del: real_sqrt_four)
qed

lemma rsr_X3_Z4:
  "recursive_seq_rotations [] [(pauli_row ''X'', 3 / 5), (pauli_row ''Z'', 4 / 5)]
     = ([((pauli_row ''Y'', 1), - arctan (4 / 3))], Inr [(pauli_row ''X'', 1)])"
proof -
  have th: "theta_sk (3 / 5) (4 / 5) = Some (arctan (4 / 3))"
    by (simp add: theta_sk_nonzero)
  have s: "sqrt ((3 / 5)\<^sup>2 + (4 / 5)\<^sup>2) = (1::real)"
    by (simp add: power2_eq_square)
  show ?thesis
    unfolding rsr_step[OF th] s
    by (simp add: X_sk_X_Z recorded_rotation_def)
qed

definition clique_X3_Z4 :: anticommuting_op where
  "clique_X3_Z4 = \<lparr>n_qubits = 1, symp_matrix = [pauli_row ''X'', pauli_row ''Z''],
      coeff_vec = [3, 4], X_sk_rotations = [], R_LCU = NoLCU\<rparr>"

lemma clique_X3_Z4_valid: "AntiCommutingOp 1 [pauli_row ''X'', pauli_row ''Z''] [3, 4] = Inr clique_X3_Z4"
  by (simp add: AntiCommutingOp_def anti_comm_check_def commutes_def anticommuting_count_def
        row_simps upt_rec clique_X3_Z4_def)

lemma up_X3_Z4_seq_rot:
  assumes "n_qubits self = 1" "symp_matrix self = [pauli_row ''X'', pauli_row ''Z'']" "coeff_vec self = [3, 4]"
  shows "unitary_partitioning self None ''seq_rot'' =
     (self\<lparr>X_sk_rotations := [((pauli_row ''Y'', 1), - arctan (4 / 3))]\<rparr>,
      Returned ([(pauli_row ''X'', 1)], Rotations [((pauli_row ''Y'', 1), - arctan (4 / 3))], 5,
                [(pauli_row ''X'', 3 / 5), (pauli_row ''Z'', 4 / 5)]))"
proof -
  have st: "select_target self None = Inr 0"
    by (simp add: select_target_def get_least_dense_term_index_def argmin_def int_of_row_def
          pos_terms_occur_def row_simps assms)
  have tf: "target_first self 0 = Inr ([pauli_row ''X'', pauli_row ''Z''], [3, 4])"
    by (simp add: target_first_def assms)
  show ?thesis
    by (simp add: unitary_partitioning_def st tf terms_of_def assms linalg_norm_3_4 rsr_X3_Z4
          del: recursive_seq_rotations.simps)
qed












section \<open>The recipe caches\<close>

text \<open>
  A call reaches the dispatch on the method (line 163) when the operator does not have
  exactly one term and the target index is found and moved first without an error.
\<close>

definition reaches_dispatch :: "anticommuting_op \<Rightarrow> int option \<Rightarrow> bool" where
  "reaches_dispatch self s_index =
     (length (terms_of self) \<noteq> 1 \<and>
      (case select_target self s_index of
         Inl e \<Rightarrow> False
       | Inr s \<Rightarrow> (case target_first self s of Inl e \<Rightarrow> False | Inr r \<Rightarrow> True)))"

definition fresh_caches :: "anticommuting_op \<Rightarrow> anticommuting_op" where
  "fresh_caches self = self\<lparr>X_sk_rotations := [], R_LCU := NoLCU\<rparr>"

lemma least_dense_caches [simp]:
  "get_least_dense_term_index (self\<lparr>X_sk_rotations := c\<rparr>) = get_least_dense_term_index self"
  "get_least_dense_term_index (self\<lparr>R_LCU := r\<rparr>) = get_least_dense_term_index self"
  by (simp_all add: get_least_dense_term_index_def)

lemma select_target_caches [simp]:
  "select_target (self\<lparr>X_sk_rotations := c\<rparr>) s = select_target self s"
  "select_target (self\<lparr>R_LCU := r\<rparr>) s = select_target self s"
  by (simp_all add: select_target_def cong: option.case_cong)

lemma target_first_caches [simp]:
  "target_first (self\<lparr>X_sk_rotations := c\<rparr>) s = target_first self s"
  "target_first (self\<lparr>R_LCU := r\<rparr>) s = target_first self s"
  by (simp_all add: target_first_def cong: sum.case_cong)

lemma up_LCU_keeps_rotations:
  "X_sk_rotations (fst (unitary_partitioning self s ''LCU'')) = X_sk_rotations self"
  by (simp add: unitary_partitioning_def Let_def split: sum.splits prod.splits option.splits)

lemma up_seq_rot_keeps_R_LCU:
  "R_LCU (fst (unitary_partitioning self s ''seq_rot'')) = R_LCU self"
  by (simp add: unitary_partitioning_def Let_def split: sum.splits prod.splits option.splits)

lemma up_fresh:
  "unitary_partitioning (self\<lparr>X_sk_rotations := c, R_LCU := r\<rparr>) s m
     = (let (after, out) = unitary_partitioning self s m in
        (if reaches_dispatch self s \<and> m = ''seq_rot'' then after\<lparr>R_LCU := r\<rparr>
         else if reaches_dispatch self s \<and> m = ''LCU'' then after\<lparr>X_sk_rotations := c\<rparr>
         else after\<lparr>X_sk_rotations := c, R_LCU := r\<rparr>, out))"
  by (auto simp: unitary_partitioning_def reaches_dispatch_def Let_def terms_of_def
        split: sum.splits prod.splits option.splits)

lemma reaches_dispatch_caches [simp]:
  "reaches_dispatch (self\<lparr>X_sk_rotations := c\<rparr>) s = reaches_dispatch self s"
  "reaches_dispatch (self\<lparr>R_LCU := r\<rparr>) s = reaches_dispatch self s"
  by (simp_all add: reaches_dispatch_def terms_of_def cong: sum.case_cong)

lemma up_LCU_returns:
  assumes "symp_matrix self = P # Q # rows" "coeff_vec self = b # b' # bs" "b \<noteq> 0"
    and "select_target self s = Inr 0"
  shows "\<exists>res. snd (unitary_partitioning self s ''LCU'') = Returned res"
proof -
  have g: "linalg_norm (coeff_vec self) \<noteq> 0"
    using linalg_norm_nonzero[OF assms(3)] by (simp add: assms)
  have tf: "target_first self 0 = Inr (P # Q # rows, b # b' # bs)"
    by (simp add: target_first_def assms)
  show ?thesis
    using g by (simp add: unitary_partitioning_def assms tf terms_of_def generate_LCU_operator_def Let_def)
qed

text \<open>
  Claim C8, as stated, fails: after a call with the method \<open>seq_rot\<close> and then a call with
  the method \<open>LCU\<close> on the same object, \<open>X_sk_rotations\<close> still holds the rotation that the
  first call recorded.
\<close>

theorem cached_rotations_survive_LCU_call:
  "X_sk_rotations (fst (unitary_partitioning
        (fst (unitary_partitioning clique_X3_Z4 None ''seq_rot'')) None ''LCU''))
     = [((pauli_row ''Y'', 1), - arctan (4 / 3))]
   \<and> (\<exists>res. snd (unitary_partitioning
        (fst (unitary_partitioning clique_X3_Z4 None ''seq_rot'')) None ''LCU'') = Returned res)"
proof -
  let ?A1 = "fst (unitary_partitioning clique_X3_Z4 None ''seq_rot'')"
  have A1: "?A1 = clique_X3_Z4\<lparr>X_sk_rotations := [((pauli_row ''Y'', 1), - arctan (4 / 3))]\<rparr>"
    by (subst up_X3_Z4_seq_rot) (simp_all add: clique_X3_Z4_def)
  have st: "select_target ?A1 None = Inr 0"
    unfolding A1
    by (simp add: select_target_def get_least_dense_term_index_def argmin_def int_of_row_def
          pos_terms_occur_def row_simps clique_X3_Z4_def)
  have sm: "symp_matrix ?A1 = [pauli_row ''X'', pauli_row ''Z'']" and cv: "coeff_vec ?A1 = [3, 4]"
    unfolding A1 by (simp_all add: clique_X3_Z4_def)
  have "\<exists>res. snd (unitary_partitioning ?A1 None ''LCU'') = Returned res"
    by (rule up_LCU_returns[OF sm cv _ st]) simp
  moreover have "X_sk_rotations (fst (unitary_partitioning ?A1 None ''LCU'')) = [((pauli_row ''Y'', 1), - arctan (4 / 3))]"
    unfolding up_LCU_keeps_rotations A1 by simp
  ultimately show ?thesis by blast
qed

text \<open>
  Claim C8, amended: a call that reaches the dispatch rebuilds the cache of the method
  it is called with from empty, whatever that cache held (\<open>X_sk_rotations\<close> for
  \<open>seq_rot\<close>, \<open>R_LCU\<close> for \<open>LCU\<close>), and leaves the cache of the other method as it was; a
  call that does not reach the dispatch, or that names an unknown method, leaves both
  caches as they were; the outcome of a call does not depend on the caches.  So a call
  on an object with the caches \<open>c\<close> and \<open>r\<close> is the call on the object with empty caches,
  with the untouched caches put back.
\<close>

theorem partitioning_cache_frame:
  "unitary_partitioning (self\<lparr>X_sk_rotations := c, R_LCU := r\<rparr>) s m
     = (let (after, out) = unitary_partitioning (fresh_caches self) s m in
        (if reaches_dispatch self s \<and> m = ''seq_rot'' then after\<lparr>R_LCU := r\<rparr>
         else if reaches_dispatch self s \<and> m = ''LCU'' then after\<lparr>X_sk_rotations := c\<rparr>
         else after\<lparr>X_sk_rotations := c, R_LCU := r\<rparr>, out))"
proof -
  have rd: "reaches_dispatch (fresh_caches self) s = reaches_dispatch self s"
    by (simp add: fresh_caches_def)
  have upd: "(fresh_caches self)\<lparr>X_sk_rotations := c, R_LCU := r\<rparr> = self\<lparr>X_sk_rotations := c, R_LCU := r\<rparr>"
    by (simp add: fresh_caches_def)
  show ?thesis
    using up_fresh[where self = "fresh_caches self" and c = c and r = r and s = s and m = m]
    unfolding rd upd .
qed

theorem partitioning_cache_frame_witness:
  "X_sk_rotations (fst (unitary_partitioning
       (clique_X3_Z4\<lparr>X_sk_rotations := [((pauli_row ''Y'', 1), - arctan (4 / 3))], R_LCU := CachedNaN\<rparr>)
       None ''seq_rot'')) = [((pauli_row ''Y'', 1), - arctan (4 / 3))]
   \<and> R_LCU (fst (unitary_partitioning
       (clique_X3_Z4\<lparr>X_sk_rotations := [((pauli_row ''Y'', 1), - arctan (4 / 3))], R_LCU := CachedNaN\<rparr>)
       None ''seq_rot'')) = CachedNaN"
proof -
  have rd: "reaches_dispatch clique_X3_Z4 None"
    by (simp add: reaches_dispatch_def select_target_def get_least_dense_term_index_def argmin_def int_of_row_def
          pos_terms_occur_def row_simps clique_X3_Z4_def target_first_def terms_of_def)
  have fr: "unitary_partitioning (fresh_caches clique_X3_Z4) None ''seq_rot'' =
     (fresh_caches clique_X3_Z4\<lparr>X_sk_rotations := [((pauli_row ''Y'', 1), - arctan (4 / 3))]\<rparr>,
      Returned ([(pauli_row ''X'', 1)], Rotations [((pauli_row ''Y'', 1), - arctan (4 / 3))], 5,
                [(pauli_row ''X'', 3 / 5), (pauli_row ''Z'', 4 / 5)]))"
    by (rule up_X3_Z4_seq_rot) (simp_all add: clique_X3_Z4_def fresh_caches_def)
  show ?thesis
    unfolding partitioning_cache_frame[where self = clique_X3_Z4] fr
    using rd by (simp add: fresh_caches_def)
qed

section \<open>The recipe on a clique with a negative target and no other weight\<close>

text \<open>
  Modelled from the spec: the rotation of an operator by an angle about a generator (the
  method of PauliwordOp that applies a recorded rotation is not in src/).  A term that
  commutes with the generator \<open>Q\<close> is left as it is; a term \<open>P\<close> that anticommutes with it
  becomes \<open>cos \<theta> P + sin \<theta> (- i P Q)\<close>.  For the pair \<open>\<beta>_s P_s + \<beta>_k P_k\<close> and the
  generator \<open>- i P_s P_k\<close> the coefficient of \<open>P_k\<close> after the rotation is
  \<open>\<beta>_k cos \<theta> - \<beta>_s sin \<theta>\<close>, the quantity that line 100 asserts to vanish.
\<close>

definition perform_rotation :: "rotation \<Rightarrow> pauliop \<Rightarrow> pauliop" where
  "perform_rotation rot A =
     (case rot of ((Q, q), theta) \<Rightarrow>
        cleanup (concat (map (\<lambda>(P, c).
          if commutes P Q then [(P, c)]
          else [(P, c * complex_of_real (cos theta)),
                mul_symplectic P (c * complex_of_real (sin theta) * (- \<i>)) Q q]) A)))"

definition perform_rotations :: "rotation list \<Rightarrow> pauliop \<Rightarrow> pauliop" where
  "perform_rotations rots A = foldl (\<lambda>B rot. perform_rotation rot B) A rots"

definition clique_Xm1_Z0 :: anticommuting_op where
  "clique_Xm1_Z0 = \<lparr>n_qubits = 1, symp_matrix = [pauli_row ''X'', pauli_row ''Z''],
      coeff_vec = [- 1, 0], X_sk_rotations = [], R_LCU = NoLCU\<rparr>"

lemma clique_Xm1_Z0_valid: "AntiCommutingOp 1 [pauli_row ''X'', pauli_row ''Z''] [- 1, 0] = Inr clique_Xm1_Z0"
  by (simp add: AntiCommutingOp_def anti_comm_check_def commutes_def anticommuting_count_def
        row_simps upt_rec clique_Xm1_Z0_def)

lemma select_target_Xm1_Z0: "select_target clique_Xm1_Z0 None = Inr 0"
  by (simp add: select_target_def get_least_dense_term_index_def argmin_def int_of_row_def
        pos_terms_occur_def row_simps clique_Xm1_Z0_def)

lemma target_first_Xm1_Z0:
  "target_first clique_Xm1_Z0 0 = Inr ([pauli_row ''X'', pauli_row ''Z''], [- 1, 0])"
  by (simp add: target_first_def clique_Xm1_Z0_def)

lemma linalg_norm_m1_0: "linalg_norm [- 1, 0] = 1"
  by (simp add: linalg_norm_def)

lemma residual_Xm1_Z0:
  "op_sub (complex_op [(pauli_row ''X'', - 1), (pauli_row ''Z'', 0)])
          (multiply_by_constant [(pauli_row ''X'', 1)] (complex_of_real (- 1))) = []"
  by (simp add: op_sub_def op_add_def multiply_by_constant_def complex_op_def cleanup_def coeff_of_def pauli_row_def)

lemma generate_LCU_Xm1_Z0:
  "generate_LCU_operator NoLCU n [(pauli_row ''X'', - 1), (pauli_row ''Z'', 0)]
     = (CachedLCU [(identity_row n, 0)], Inr (Some [(pauli_row ''X'', 1)]))"
  using residual_Xm1_Z0 by (simp add: generate_LCU_operator_def Let_def)

lemma up_Xm1_Z0_LCU:
  "unitary_partitioning clique_Xm1_Z0 None ''LCU''
     = (clique_Xm1_Z0\<lparr>R_LCU := CachedLCU [(identity_row 1, 0)]\<rparr>,
        Returned ([(pauli_row ''X'', 1)], LCU_operator (CachedLCU [(identity_row 1, 0)]), 1,
                  [(pauli_row ''X'', - 1), (pauli_row ''Z'', 0)]))"
proof -
  have n: "n_qubits clique_Xm1_Z0 = 1" and c: "coeff_vec clique_Xm1_Z0 = [- 1, 0]"
    and t: "terms_of clique_Xm1_Z0 = [(pauli_row ''X'', - 1), (pauli_row ''Z'', 0)]"
    by (simp_all add: clique_Xm1_Z0_def terms_of_def)
  show ?thesis
    by (simp add: unitary_partitioning_def select_target_Xm1_Z0 target_first_Xm1_Z0 n c t
          linalg_norm_m1_0 generate_LCU_Xm1_Z0)
qed

lemma rsr_Xm1_Z0:
  "recursive_seq_rotations [] [(pauli_row ''X'', - 1), (pauli_row ''Z'', 0)]
     = ([((pauli_row ''Y'', 1), - pi)], Inr [(pauli_row ''X'', 1)])"
proof -
  have th: "theta_sk (- 1) 0 = Some pi"
    by (simp add: theta_sk_nonzero)
  have s: "sqrt ((- 1)\<^sup>2 + 0\<^sup>2) = (1::real)"
    by simp
  show ?thesis
    unfolding rsr_step[OF th] s
    by (simp add: X_sk_X_Z recorded_rotation_def)
qed

lemma up_Xm1_Z0_seq_rot:
  "unitary_partitioning clique_Xm1_Z0 None ''seq_rot''
     = (clique_Xm1_Z0\<lparr>X_sk_rotations := [((pauli_row ''Y'', 1), - pi)]\<rparr>,
        Returned ([(pauli_row ''X'', 1)], Rotations [((pauli_row ''Y'', 1), - pi)], 1,
                  [(pauli_row ''X'', - 1), (pauli_row ''Z'', 0)]))"
proof -
  have n: "n_qubits clique_Xm1_Z0 = 1" and c: "coeff_vec clique_Xm1_Z0 = [- 1, 0]"
    and t: "terms_of clique_Xm1_Z0 = [(pauli_row ''X'', - 1), (pauli_row ''Z'', 0)]"
    by (simp_all add: clique_Xm1_Z0_def terms_of_def)
  show ?thesis
    by (simp add: unitary_partitioning_def select_target_Xm1_Z0 target_first_Xm1_Z0 n c t
          linalg_norm_m1_0 rsr_Xm1_Z0 del: recursive_seq_rotations.simps)
qed

lemma conj_Xm1_Z0:
  "conjugate_Pop_with_R (complex_op [(pauli_row ''X'', - 1), (pauli_row ''Z'', 0)]) [(identity_row 1, 0)] = []"
  by (simp add: conjugate_Pop_with_R_def complex_op_def Let_def cleanup_def coeff_of_def pauli_row_def identity_row_def
      mul_symplectic_def xor_rows_def)

lemma anticommute_X_Y: "\<not> commutes (pauli_row ''X'') (pauli_row ''Y'')"
  and anticommute_Z_Y: "\<not> commutes (pauli_row ''Z'') (pauli_row ''Y'')"
  by (simp_all add: commutes_def anticommuting_count_def row_simps)

lemma rotate_Xm1_Z0:
  "perform_rotations [((pauli_row ''Y'', 1), - pi)] (complex_op [(pauli_row ''X'', - 1), (pauli_row ''Z'', 0)])
     = [(pauli_row ''X'', 1)]"
proof -
  have "perform_rotations [((pauli_row ''Y'', 1), - pi)] (complex_op [(pauli_row ''X'', - 1), (pauli_row ''Z'', 0)])
      = cleanup [(pauli_row ''X'', 1), (xor_rows (pauli_row ''X'') (pauli_row ''Y''), 0),
                 (pauli_row ''Z'', 0), (xor_rows (pauli_row ''Z'') (pauli_row ''Y''), 0)]"
    by (simp add: perform_rotations_def perform_rotation_def complex_op_def anticommute_X_Y anticommute_Z_Y
          mul_symplectic_def)
  also have "\<dots> = [(pauli_row ''X'', 1)]"
    by (simp add: cleanup_def coeff_of_def pauli_row_def xor_rows_def)
  finally show ?thesis .
qed

text \<open>
  Claim C2: for every AntiCommutingOp with at least two terms and real coefficients the
  recipe returned by \<open>unitary_partitioning\<close> is sound: the rotations applied in order, or
  the conjugation by \<open>R\<close>, take the operator to \<open>\<gamma> P_s\<close>.  On the clique \<open>{X: - 1, Z: 0}\<close>
  the LCU method returns \<open>P_s = X\<close>, \<open>\<gamma> = 1\<close> and \<open>R = cos (\<pi> / 2) I\<close>, the zero operator:
  the residual without the target term is empty, and \<open>\<alpha> = arccos (- 1) = \<pi>\<close>.  The
  conjugation by this \<open>R\<close> gives the empty operator, not \<open>X\<close>.  On the same clique the
  sequence of rotations returns the rotation about \<open>Y\<close> by \<open>- \<pi>\<close>, which does take the
  operator to \<open>X\<close>.
\<close>

theorem LCU_recipe_fails_on_negative_target:
  "AntiCommutingOp 1 [pauli_row ''X'', pauli_row ''Z''] [- 1, 0] = Inr clique_Xm1_Z0
   \<and> unitary_partitioning clique_Xm1_Z0 None ''LCU''
     = (clique_Xm1_Z0\<lparr>R_LCU := CachedLCU [(identity_row 1, 0)]\<rparr>,
        Returned ([(pauli_row ''X'', 1)], LCU_operator (CachedLCU [(identity_row 1, 0)]), 1,
                  [(pauli_row ''X'', - 1), (pauli_row ''Z'', 0)]))
   \<and> conjugate_Pop_with_R (complex_op (terms_of clique_Xm1_Z0)) [(identity_row 1, 0)] = []
   \<and> unitary_partitioning clique_Xm1_Z0 None ''seq_rot''
     = (clique_Xm1_Z0\<lparr>X_sk_rotations := [((pauli_row ''Y'', 1), - pi)]\<rparr>,
        Returned ([(pauli_row ''X'', 1)], Rotations [((pauli_row ''Y'', 1), - pi)], 1,
                  [(pauli_row ''X'', - 1), (pauli_row ''Z'', 0)]))
   \<and> perform_rotations [((pauli_row ''Y'', 1), - pi)] (complex_op (terms_of clique_Xm1_Z0))
     = multiply_by_constant [(pauli_row ''X'', 1)] 1"
proof -
  have t: "terms_of clique_Xm1_Z0 = [(pauli_row ''X'', - 1), (pauli_row ''Z'', 0)]"
    by (simp add: clique_Xm1_Z0_def terms_of_def)
  have m: "multiply_by_constant [(pauli_row ''X'', 1)] 1 = [(pauli_row ''X'', 1)]"
    by (simp add: multiply_by_constant_def)
  show ?thesis
    unfolding t m
    using clique_Xm1_Z0_valid up_Xm1_Z0_LCU conj_Xm1_Z0 up_Xm1_Z0_seq_rot rotate_Xm1_Z0 by blast
qed

section \<open>The default target term\<close>

text \<open>In the spec's words: the number of non-identity qubit positions of a term.\<close>

definition density :: "nat \<Rightarrow> pvec \<Rightarrow> nat" where
  "density n v = length (filter (\<lambda>(x, z). x \<or> z) (zip (X_block n v) (Z_block n v)))"

definition clique_IXXX_XIIZ :: anticommuting_op where
  "clique_IXXX_XIIZ = \<lparr>n_qubits = 4, symp_matrix = [pauli_row ''IXXX'', pauli_row ''XIIZ''],
      coeff_vec = [1, 1], X_sk_rotations = [], R_LCU = NoLCU\<rparr>"

lemma clique_IXXX_XIIZ_valid:
  "AntiCommutingOp 4 [pauli_row ''IXXX'', pauli_row ''XIIZ''] [1, 1] = Inr clique_IXXX_XIIZ"
  by (simp add: AntiCommutingOp_def anti_comm_check_def commutes_def anticommuting_count_def
        row_simps upt_rec clique_IXXX_XIIZ_def)

lemma least_dense_IXXX_XIIZ: "get_least_dense_term_index clique_IXXX_XIIZ = Inr 0"
  by (simp add: get_least_dense_term_index_def argmin_def int_of_row_def pos_terms_occur_def
        row_simps clique_IXXX_XIIZ_def)

text \<open>
  Claim C6: with \<open>s_index = None\<close> on a clique of at least two terms, the default target
  term is a term with the fewest non-identity qubit positions.  The code takes the term
  whose support, read as a binary number, is least.  On the clique of \<open>IXXX\<close> and \<open>XIIZ\<close>
  (two anticommuting terms on four qubits) the supports read 7 and 9, so the index is 0
  and the partitioning reduces to \<open>IXXX\<close>, which has three non-identity positions, although
  \<open>XIIZ\<close> has two.
\<close>

theorem default_target_not_least_dense:
  "AntiCommutingOp 4 [pauli_row ''IXXX'', pauli_row ''XIIZ''] [1, 1] = Inr clique_IXXX_XIIZ
   \<and> get_least_dense_term_index clique_IXXX_XIIZ = Inr 0
   \<and> (\<exists>c rots g ac. snd (unitary_partitioning clique_IXXX_XIIZ None ''seq_rot'')
          = Returned ([(pauli_row ''IXXX'', c)], rots, g, ac))
   \<and> density 4 (pauli_row ''IXXX'') = 3 \<and> density 4 (pauli_row ''XIIZ'') = 2"
proof -
  have st: "select_target clique_IXXX_XIIZ None = Inr 0"
    by (simp add: select_target_def least_dense_IXXX_XIIZ)
  have "\<exists>c rots g ac. snd (unitary_partitioning clique_IXXX_XIIZ None ''seq_rot'')
          = Returned ([(pauli_row ''IXXX'', c)], rots, g, ac)"
    by (rule up_seq_rot_head[where rows = "[pauli_row ''XIIZ'']" and b = 1 and bs = "[1]", OF _ st])
       (simp_all add: clique_IXXX_XIIZ_def terms_of_def)
  moreover have "density 4 (pauli_row ''IXXX'') = 3 \<and> density 4 (pauli_row ''XIIZ'') = 2"
    by (simp add: density_def row_simps)
  ultimately show ?thesis
    using clique_IXXX_XIIZ_valid least_dense_IXXX_XIIZ by blast
qed

section \<open>The noncontextual energy\<close>

text \<open>
  The energy in the words of the spec (section 4.6): the coefficient of term \<open>t\<close> is
  modified by its sign and by \<open>(-1)\<close> to the number of symmetry generators that row \<open>t\<close> of
  \<open>G_indices\<close> selects and \<open>nu\<close> sets to \<open>-1\<close>; \<open>s0\<close> sums the real parts over the rows
  whose row of \<open>C_indices\<close> is zero, \<open>s_i\<close> over the rows that select clique \<open>i\<close>.
\<close>

definition mismatch :: "noncontextual_op \<Rightarrow> real list \<Rightarrow> nat \<Rightarrow> nat" where
  "mismatch nc nu t = card {j. j < length nu \<and> G_indices nc ! t ! j = 1 \<and> nu ! j = - 1}"

definition coeff_mod_spec :: "noncontextual_op \<Rightarrow> real list \<Rightarrow> nat \<Rightarrow> complex" where
  "coeff_mod_spec nc nu t =
     snd (nc_terms nc ! t) * of_int (pauli_mult_signs nc ! t) * (- 1) ^ mismatch nc nu t"

definition s0_spec :: "noncontextual_op \<Rightarrow> real list \<Rightarrow> real" where
  "s0_spec nc nu =
     (\<Sum>t \<in> {t. t < length (nc_terms nc) \<and> (\<forall>i < n_cliques nc. C_indices nc ! t ! i = 0)}.
        Re (coeff_mod_spec nc nu t))"

definition si_spec :: "noncontextual_op \<Rightarrow> real list \<Rightarrow> nat \<Rightarrow> real" where
  "si_spec nc nu i =
     (\<Sum>t \<in> {t. t < length (nc_terms nc) \<and> C_indices nc ! t ! i \<noteq> 0}. Re (coeff_mod_spec nc nu t))"

definition energy_spec :: "noncontextual_op \<Rightarrow> real list \<Rightarrow> real" where
  "energy_spec nc nu = s0_spec nc nu - sqrt (\<Sum>i < n_cliques nc. (si_spec nc nu i)\<^sup>2)"

lemma mask_select_sum:
  fixes f :: "nat \<Rightarrow> complex"
  assumes "length msk = n"
  shows "sum_list (mask_select msk (map f [0..<n])) = (\<Sum>t \<in> {t. t < n \<and> msk ! t}. f t)"
  using assms
proof (induction n arbitrary: msk)
  case 0
  then show ?case by (simp add: mask_select_def)
next
  case (Suc n)
  then obtain ms b where msk: "msk = ms @ [b]" and len: "length ms = n"
    by (metis length_Suc_conv_rev)
  have set: "{t. t < Suc n \<and> (ms @ [b]) ! t} = {t. t < n \<and> ms ! t} \<union> (if b then {n} else {})"
    using len by (auto simp: nth_append less_Suc_eq)
  have "mask_select (ms @ [b]) (map f [0..<Suc n]) = mask_select ms (map f [0..<n]) @ (if b then [f n] else [])"
    using len by (simp add: mask_select_def)
  then show ?case
    unfolding msk set using Suc.IH[OF len] by (auto simp: sum.union_disjoint)
qed

lemma count_filter_zip:
  assumes "length g = length nu"
  shows "length (filter (\<lambda>(x, v). x = (1::int) \<and> v = (- 1 :: real)) (zip g nu))
       = card {j. j < length nu \<and> g ! j = 1 \<and> nu ! j = - 1}"
proof -
  have "{i. i < length (zip g nu) \<and> (\<lambda>(x, v). x = 1 \<and> v = - 1) (zip g nu ! i)}
      = {j. j < length nu \<and> g ! j = 1 \<and> nu ! j = - 1}"
    using assms by auto
  then show ?thesis by (simp add: length_filter_conv_card)
qed

text \<open>
  What \<open>noncontextual_reconstruction\<close> establishes: the matrices have one row for each term,
  the columns are split between the symmetry generators and the cliques, and the masks
  are the ones lines 250-251 derive from \<open>C_indices\<close>.
\<close>

definition reconstructed :: "noncontextual_op \<Rightarrow> bool" where
  "reconstructed nc =
     (length (G_indices nc) = length (nc_terms nc)
      \<and> length (C_indices nc) = length (nc_terms nc)
      \<and> length (pauli_mult_signs nc) = length (nc_terms nc)
      \<and> list_all (\<lambda>row. length row = length (symmetry_generators nc)) (G_indices nc)
      \<and> list_all (\<lambda>row. length row = n_cliques nc) (C_indices nc)
      \<and> mask_S0 nc = map (\<lambda>row. \<not> list_ex (\<lambda>x. x \<noteq> 0) row) (C_indices nc)
      \<and> mask_Ci nc = map (\<lambda>i. map (\<lambda>row. row ! i \<noteq> 0) (C_indices nc)) [0 ..< n_cliques nc])"

lemma coeff_mod_as_map:
  assumes "reconstructed nc" "length nu = length (symmetry_generators nc)"
  shows "map (\<lambda>(c, sign, G_row). c * of_int sign * (- 1) ^ count_nonzero_and G_row nu)
             (zip (map snd (nc_terms nc)) (zip (pauli_mult_signs nc) (G_indices nc)))
       = map (coeff_mod_spec nc nu) [0 ..< length (nc_terms nc)]"
proof (rule nth_equalityI)
  show "length (map (\<lambda>(c, sign, G_row). c * of_int sign * (- 1) ^ count_nonzero_and G_row nu)
             (zip (map snd (nc_terms nc)) (zip (pauli_mult_signs nc) (G_indices nc))))
      = length (map (coeff_mod_spec nc nu) [0 ..< length (nc_terms nc)])"
    using assms by (simp add: reconstructed_def)
next
  fix t
  assume "t < length (map (\<lambda>(c, sign, G_row). c * of_int sign * (- 1) ^ count_nonzero_and G_row nu)
             (zip (map snd (nc_terms nc)) (zip (pauli_mult_signs nc) (G_indices nc))))"
  then have t: "t < length (nc_terms nc)" using assms by (simp add: reconstructed_def)
  have lens: "t < length (pauli_mult_signs nc)" "t < length (G_indices nc)"
    using t assms by (simp_all add: reconstructed_def)
  have "length (G_indices nc ! t) = length nu"
    using assms lens by (simp add: reconstructed_def list_all_length)
  then have "count_nonzero_and (G_indices nc ! t) nu = mismatch nc nu t"
    by (simp add: count_nonzero_and_def mismatch_def count_filter_zip)
  then show "map (\<lambda>(c, sign, G_row). c * of_int sign * (- 1) ^ count_nonzero_and G_row nu)
             (zip (map snd (nc_terms nc)) (zip (pauli_mult_signs nc) (G_indices nc))) ! t
      = map (coeff_mod_spec nc nu) [0 ..< length (nc_terms nc)] ! t"
    using t lens by (simp add: coeff_mod_spec_def)
qed

lemma Re_sum_list_mask:
  fixes f :: "nat \<Rightarrow> complex"
  assumes "length msk = n"
  shows "Re (sum_list (mask_select msk (map f [0..<n]))) = (\<Sum>t \<in> {t. t < n \<and> msk ! t}. Re (f t))"
  by (simp add: mask_select_sum[OF assms])

lemma linalg_norm_map_upt: "linalg_norm (map g [0..<M]) = sqrt (\<Sum>i<M. (g i)\<^sup>2)"
  by (simp add: linalg_norm_def comp_def interv_sum_list_conv_sum_set_nat atLeast0LessThan)

lemma get_energy_reconstructed:
  assumes "reconstructed nc" "length nu = length (symmetry_generators nc)"
  shows "get_energy nc nu = Inr (energy_spec nc nu)"
proof -
  let ?n = "length (nc_terms nc)" and ?M = "n_cliques nc"
  let ?f = "coeff_mod_spec nc nu"
  have lenC: "length (C_indices nc) = ?n" and rowC: "\<And>t. t < ?n \<Longrightarrow> length (C_indices nc ! t) = ?M"
    using assms(1) by (simp_all add: reconstructed_def list_all_length)
  have S0: "mask_S0 nc = map (\<lambda>row. \<not> list_ex (\<lambda>x. x \<noteq> 0) row) (C_indices nc)"
    and Ci: "mask_Ci nc = map (\<lambda>i. map (\<lambda>row. row ! i \<noteq> 0) (C_indices nc)) [0 ..< ?M]"
    using assms(1) by (simp_all add: reconstructed_def)
  have s0: "Re (sum_list (mask_select (mask_S0 nc) (map ?f [0..<?n]))) = s0_spec nc nu"
  proof -
    have "{t. t < ?n \<and> mask_S0 nc ! t} = {t. t < ?n \<and> (\<forall>i < ?M. C_indices nc ! t ! i = 0)}"
      using lenC rowC by (auto simp: S0 list_ex_length)
    then show ?thesis
      using Re_sum_list_mask[of "mask_S0 nc" ?n ?f] lenC by (simp add: S0 s0_spec_def)
  qed
  have si: "map (\<lambda>mask_i. Re (sum_list (mask_select mask_i (map ?f [0..<?n])))) (mask_Ci nc)
          = map (si_spec nc nu) [0..<?M]"
  proof -
    have "Re (sum_list (mask_select (map (\<lambda>row. row ! i \<noteq> 0) (C_indices nc)) (map ?f [0..<?n]))) = si_spec nc nu i" for i
    proof -
      have "{t. t < ?n \<and> map (\<lambda>row. row ! i \<noteq> 0) (C_indices nc) ! t} = {t. t < ?n \<and> C_indices nc ! t ! i \<noteq> 0}"
        using lenC by auto
      then show ?thesis
        using Re_sum_list_mask[of "map (\<lambda>row. row ! i \<noteq> 0) (C_indices nc)" ?n ?f] lenC
        by (simp add: si_spec_def)
    qed
    then show ?thesis by (simp add: Ci comp_def)
  qed
  show ?thesis
    using assms(2)
    by (simp add: get_energy_def get_symmetry_contributions_def Let_def coeff_mod_as_map[OF assms]
          s0 si linalg_norm_map_upt energy_spec_def)
qed

text \<open>
  The contract of the Jordan-product reconstruction used here: for the operator \<open>H\<close> and
  any generating set, the reconstruction matrix has one row for each term of \<open>H\<close> and one
  column for each generator.
\<close>

definition jordan_matrix_shaped :: "pauli_layer \<Rightarrow> pauliop \<Rightarrow> bool" where
  "jordan_matrix_shaped L H =
     (\<forall>gens. length (fst (jordan_generator_reconstruction L H gens)) = length H
        \<and> list_all (\<lambda>row. length row = length gens) (fst (jordan_generator_reconstruction L H gens)))"

lemma collect_length: "collect xs = Inr ys \<Longrightarrow> length ys = length xs"
proof (induction xs arbitrary: ys)
  case Nil
  then show ?case by simp
next
  case (Cons x xs)
  then show ?case by (cases x) (auto split: sum.splits)
qed

lemma set_reconstruction_reconstructed:
  assumes "length J = length (nc_terms nc)" "list_all (\<lambda>row. length row = nG + M) J"
    and "length (symmetry_generators nc) = nG" "n_cliques nc = M" "length signs = length J"
  shows "reconstructed ((set_reconstruction nG M J nc)\<lparr>pauli_mult_signs := signs\<rparr>)"
  using assms by (simp add: reconstructed_def set_reconstruction_def Let_def list_all_iff)

lemma noncontextual_reconstruction_reconstructed:
  assumes "noncontextual_reconstruction L n H nc0 = Inr nc" "jordan_matrix_shaped L H" "nc_terms nc0 = H"
  shows "reconstructed nc \<and> nc_terms nc = H \<and> symmetry_generators nc = symmetry_generators nc0
         \<and> decomposed nc = decomposed nc0 \<and> n_cliques nc = n_cliques nc0"
proof -
  let ?rows = "map fst (symmetry_generators nc0) @ map fst (clique_operator nc0)"
  let ?nG = "length (symmetry_generators nc0)"
  let ?gens = "map (\<lambda>v. (v, 1::complex)) ?rows"
  obtain J ok where J: "jordan_generator_reconstruction L H ?gens = (J, ok)"
    by (cases "jordan_generator_reconstruction L H ?gens")
  from assms(1) have len: "length ?rows = ?nG + n_cliques nc0"
    by (auto simp: noncontextual_reconstruction_def Let_def split: if_splits)
  from assms(1) len J obtain signs where signs: "collect (map (multiply_indices n ?gens) J) = Inr signs"
    and nc: "nc = (set_reconstruction ?nG (n_cliques nc0) J nc0)\<lparr>pauli_mult_signs := signs\<rparr>"
    by (auto simp: noncontextual_reconstruction_def Let_def split: if_splits sum.splits)
  have shape: "length J = length H" "list_all (\<lambda>row. length row = ?nG + n_cliques nc0) J"
    using assms(2) J len unfolding jordan_matrix_shaped_def
    by (metis fst_conv, metis fst_conv length_map)
  have ls: "length signs = length J" using collect_length[OF signs] by simp
  have "reconstructed nc"
    unfolding nc
    by (rule set_reconstruction_reconstructed) (use shape ls assms(3) in simp_all)
  moreover have "nc_terms nc = H \<and> symmetry_generators nc = symmetry_generators nc0
         \<and> decomposed nc = decomposed nc0 \<and> n_cliques nc = n_cliques nc0"
    unfolding nc by (simp add: set_reconstruction_def Let_def assms(3))
  ultimately show ?thesis by blast
qed

lemma NoncontextualOp_Inr:
  assumes "NoncontextualOp L n H = Inr nc"
  shows "is_noncontextual L H \<and>
    (\<exists>gens cliques clique_op blocks.
       noncontextual_generators L H = Inr (gens, cliques, clique_op, blocks) \<and>
       noncontextual_reconstruction L n H
        \<lparr>nc_terms = H, symmetry_generators = gens, decomposed = blocks,
         n_cliques = length cliques, clique_operator = clique_op,
         G_indices = [], C_indices = [], mask_S0 = [], mask_Ci = [], pauli_mult_signs = []\<rparr> = Inr nc)"
proof (cases "is_noncontextual L H")
  case False
  with assms show ?thesis by (simp add: NoncontextualOp_def)
next
  case True
  show ?thesis
  proof (cases "noncontextual_generators L H")
    case (Inl e)
    with assms True show ?thesis by (simp add: NoncontextualOp_def)
  next
    case (Inr r)
    obtain gens cliques clique_op blocks where r: "r = (gens, cliques, clique_op, blocks)"
      by (cases r) auto
    have g: "noncontextual_generators L H = Inr (gens, cliques, clique_op, blocks)"
      using Inr r by simp
    have "noncontextual_reconstruction L n H
        \<lparr>nc_terms = H, symmetry_generators = gens, decomposed = blocks,
         n_cliques = length cliques, clique_operator = clique_op,
         G_indices = [], C_indices = [], mask_S0 = [], mask_Ci = [], pauli_mult_signs = []\<rparr> = Inr nc"
      using assms True unfolding NoncontextualOp_def g by simp
    with True g show ?thesis by blast
  qed
qed

lemma NoncontextualOp_reconstructed:
  assumes "NoncontextualOp L n H = Inr nc" "jordan_matrix_shaped L H"
  shows "reconstructed nc \<and> nc_terms nc = H"
proof -
  from NoncontextualOp_Inr[OF assms(1)] obtain gens and cliques :: "pauliop list" and clique_op blocks where
    "noncontextual_reconstruction L n H
        \<lparr>nc_terms = H, symmetry_generators = gens, decomposed = blocks,
         n_cliques = length cliques, clique_operator = clique_op,
         G_indices = [], C_indices = [], mask_S0 = [], mask_Ci = [], pauli_mult_signs = []\<rparr> = Inr nc"
    by blast
  from noncontextual_reconstruction_reconstructed[OF this assms(2)] show ?thesis by simp
qed

text \<open>
  C4.  For a NoncontextualOp that the constructor returned (with a Jordan reconstruction
  matrix of one row for each term and one column for each generator) and a vector \<open>nu\<close>
  with one entry for each symmetry generator, in particular every \<open>nu\<close> of entries \<open>\<plusminus>1\<close>,
  \<open>get_energy\<close> returns \<open>s0 - \<parallel>(s_0, \<dots>, s_{M-1})\<parallel>\<close> with the modified coefficients, \<open>s0\<close>
  and \<open>s_i\<close> of the spec.
\<close>

theorem get_energy_matches_spec:
  assumes "NoncontextualOp L n H = Inr nc" "jordan_matrix_shaped L H"
    and "length nu = length (symmetry_generators nc)"
  shows "get_energy nc nu = Inr (energy_spec nc nu)"
proof -
  have "reconstructed nc" using NoncontextualOp_reconstructed[OF assms(1,2)] by simp
  then show ?thesis using assms(3) by (rule get_energy_reconstructed)
qed

section \<open>The brute-force solver\<close>

lemma product_pm_set: "set (product_pm k) = {xs. length xs = k \<and> set xs \<subseteq> {- 1, 1}}"
proof (induction k)
  case 0
  then show ?case by auto
next
  case (Suc k)
  show ?case
  proof (rule set_eqI)
    fix xs :: "int list"
    show "xs \<in> set (product_pm (Suc k)) \<longleftrightarrow> xs \<in> {xs. length xs = Suc k \<and> set xs \<subseteq> {- 1, 1}}"
    proof (cases xs)
      case Nil
      then show ?thesis by auto
    next
      case (Cons x r)
      then show ?thesis using Suc.IH by auto
    qed
  qed
qed

lemma product_pm_nonempty: "product_pm k \<noteq> []"
  by (induction k) auto

lemma mask_select_Nil [simp]: "mask_select [] xs = []" "mask_select msk [] = []"
  by (simp_all add: mask_select_def)

lemma mask_select_Cons [simp]:
  "mask_select (b # msk) (x # xs) = (if b then x # mask_select msk xs else mask_select msk xs)"
  by (simp add: mask_select_def)

lemma fill_row_props:
  assumes "length (filter id msk) = length fixed" "length (filter Not msk) = length free"
  shows "length (fill_row msk fixed free) = length msk
       \<and> mask_select msk (fill_row msk fixed free) = fixed
       \<and> mask_select (map Not msk) (fill_row msk fixed free) = free"
  using assms
proof (induction msk arbitrary: fixed free)
  case Nil
  then show ?case by simp
next
  case (Cons b m)
  show ?case
  proof (cases b)
    case True
    with Cons.prems obtain f fs where fixed: "fixed = f # fs"
      by (cases fixed) auto
    with True Cons.prems Cons.IH[of fs free] show ?thesis by simp
  next
    case False
    with Cons.prems obtain x xs where free: "free = x # xs"
      by (cases free) auto
    with False Cons.prems Cons.IH[of fixed xs] show ?thesis by simp
  qed
qed

lemma fill_row_complete:
  "fill_row msk (mask_select msk nu) (mask_select (map Not msk) nu) = nu" if "length nu = length msk"
  using that
proof (induction msk nu rule: list_induct2')
  case (4 b msk x nu)
  then show ?case by (cases b) simp_all
qed simp_all

lemma mask_select_length:
  "length xs = length msk \<Longrightarrow> length (mask_select msk xs) = length (filter id msk)"
proof (induction msk xs rule: list_induct2')
  case (4 b msk x xs)
  then show ?case by simp
qed simp_all

lemma mask_select_set: "set (mask_select msk xs) \<subseteq> set xs"
  by (auto simp: mask_select_def dest: set_zip_rightD)

lemma mask_select_all_true:
  "list_all id msk \<Longrightarrow> length xs = length msk \<Longrightarrow> mask_select msk xs = xs"
proof (induction msk xs rule: list_induct2')
  case (4 b msk x xs)
  then show ?case by simp
qed simp_all

lemma filter_Not_map: "length (filter id (map Not msk)) = length (filter Not msk)"
  by (induction msk) auto

lemma first_min_props:
  "first_min x xs \<in> set (x # xs) \<and> (\<forall>y \<in> set (x # xs). fst (first_min x xs) \<le> fst y)"
proof (induction x xs rule: first_min.induct)
  case (1 x)
  then show ?case by simp
next
  case (2 x y ys)
  then show ?case by (auto simp: Let_def)
qed

lemma collect_map_Inr:
  assumes "\<And>x. x \<in> set xs \<Longrightarrow> f x = Inr (g x)"
  shows "collect (map f xs) = Inr (map g xs)"
  using assms by (induction xs) simp_all

lemma brute_force_reconstructed:
  assumes rec: "reconstructed (NC_op S)"
    and len: "length (fixed_ev_mask S) = length (symmetry_generators (NC_op S))"
    and cnt: "length (filter id (fixed_ev_mask S)) = length (fixed_eigvals S)"
  shows "\<exists>e nu. energy_via_brute_force S = Inr (e, nu)
      \<and> length nu = length (fixed_ev_mask S)
      \<and> mask_select (fixed_ev_mask S) nu = fixed_eigvals S
      \<and> get_energy (NC_op S) (map real_of_int nu) = Inr e
      \<and> (\<forall>nu'. length nu' = length (fixed_ev_mask S) \<and> set nu' \<subseteq> {- 1, 1}
               \<and> mask_select (fixed_ev_mask S) nu' = fixed_eigvals S
            \<longrightarrow> (\<exists>e'. get_energy (NC_op S) (map real_of_int nu') = Inr e' \<and> e \<le> e'))"
proof -
  let ?msk = "fixed_ev_mask S" and ?fixed = "fixed_eigvals S" and ?nc = "NC_op S"
  let ?E = "\<lambda>nu. energy_spec ?nc (map real_of_int nu)"
  have energy: "get_energy ?nc (map real_of_int nu) = Inr (?E nu)" if "length nu = length ?msk" for nu
    using get_energy_reconstructed[OF rec, of "map real_of_int nu"] that len by simp
  define nu_list where "nu_list =
     (if list_all id ?msk then [?fixed]
      else map (fill_row ?msk ?fixed) (product_pm (length (filter Not ?msk))))"
  have rows: "length nu = length ?msk \<and> mask_select ?msk nu = ?fixed" if "nu \<in> set nu_list" for nu
  proof (cases "list_all id ?msk")
    case True
    then have "length (filter id ?msk) = length ?msk"
      by (simp add: list_all_iff)
    with that True cnt show ?thesis
      by (simp add: nu_list_def mask_select_all_true)
  next
    case False
    with that obtain free where nu: "nu = fill_row ?msk ?fixed free" and "free \<in> set (product_pm (length (filter Not ?msk)))"
      by (auto simp: nu_list_def)
    then have "length (filter Not ?msk) = length free" by (simp add: product_pm_set)
    from fill_row_props[OF cnt this] show ?thesis by (simp add: nu)
  qed
  have complete: "nu' \<in> set nu_list"
    if "length nu' = length ?msk" "set nu' \<subseteq> {- 1, 1}" "mask_select ?msk nu' = ?fixed" for nu'
  proof (cases "list_all id ?msk")
    case True
    with that show ?thesis by (simp add: nu_list_def mask_select_all_true)
  next
    case False
    let ?free = "mask_select (map Not ?msk) nu'"
    have "length ?free = length (filter Not ?msk)"
      using mask_select_length[of nu' "map Not ?msk"] that(1) by (simp add: filter_Not_map)
    moreover have "set ?free \<subseteq> {- 1, 1}"
      using mask_select_set[of "map Not ?msk" nu'] that(2) by blast
    ultimately have "?free \<in> set (product_pm (length (filter Not ?msk)))"
      by (simp add: product_pm_set)
    moreover have "nu' = fill_row ?msk ?fixed ?free"
      using fill_row_complete[OF that(1)] that(3) by simp
    ultimately show ?thesis using False by (auto simp: nu_list_def)
  qed
  have ne: "nu_list \<noteq> []"
    by (simp add: nu_list_def product_pm_nonempty)
  have branch: "(if list_all id ?msk then Inr [?fixed]
               else if length ?msk \<noteq> length (symmetry_generators ?nc) then Inl IndexError
               else if length (filter id ?msk) \<noteq> length ?fixed
               then Inl (ValueError ''shape mismatch'')
               else Inr (map (fill_row ?msk ?fixed) (product_pm (length (filter Not ?msk))))) = Inr nu_list"
    using len cnt by (simp add: nu_list_def)
  have tracker: "collect (map (\<lambda>nu. get_energy ?nc (map real_of_int nu)) nu_list) = Inr (map ?E nu_list)"
    by (rule collect_map_Inr) (simp add: energy rows)
  have zip: "zip (map ?E nu_list) nu_list = map (\<lambda>nu. (?E nu, nu)) nu_list"
    by (induction nu_list) simp_all
  obtain p ps where pairs: "map (\<lambda>nu. (?E nu, nu)) nu_list = p # ps"
    using ne by (cases nu_list) auto
  have result: "energy_via_brute_force S = Inr (first_min p ps)"
    unfolding energy_via_brute_force_def Let_def branch
    by (simp add: tracker zip pairs)
  obtain e nu where r: "first_min p ps = (e, nu)" by (cases "first_min p ps")
  have mem: "(e, nu) \<in> set (map (\<lambda>nu. (?E nu, nu)) nu_list)"
    and least: "\<forall>y \<in> set (map (\<lambda>nu. (?E nu, nu)) nu_list). e \<le> fst y"
    using first_min_props[of p ps] r pairs by simp_all
  from mem have nu: "nu \<in> set nu_list" and e: "e = ?E nu" by auto
  have "\<exists>e'. get_energy ?nc (map real_of_int nu') = Inr e' \<and> e \<le> e'"
    if "length nu' = length ?msk" "set nu' \<subseteq> {- 1, 1}" "mask_select ?msk nu' = ?fixed" for nu'
  proof -
    have "nu' \<in> set nu_list" using that by (rule complete)
    then have "e \<le> ?E nu'" using least by auto
    then show ?thesis using energy[OF that(1)] by simp
  qed
  then show ?thesis
    using result r rows[OF nu] energy[of nu] e by auto
qed

section \<open>A reference layer and a toy Hamiltonian\<close>

text \<open>
  A small executable layer for the examples.  It follows the contracts of the spec in
  the simplest way: the noncontextuality test checks that commutation is transitive on
  the terms that do not commute with every term; the symmetry generators are the terms
  that commute with every term (an independent set in the examples); a reconstruction
  searches the subsets of the generators for one whose product has the bit pattern of
  the term, and the Jordan-product variant accepts only subsets whose members commute
  pairwise; the clique cover puts each term into the first clique whose members all
  commute with it.
\<close>

definition universally_commuting :: "pauliop \<Rightarrow> pvec \<Rightarrow> bool" where
  "universally_commuting H v = list_all (\<lambda>(w, d). commutes v w) H"

definition commutation_transitive :: "pauliop \<Rightarrow> bool" where
  "commutation_transitive H =
     (let T = filter (\<lambda>v. \<not> universally_commuting H v) (map fst H)
      in list_all (\<lambda>a. list_all (\<lambda>b. list_all (\<lambda>c.
           if commutes a b \<and> commutes b c then commutes a c else True) T) T) T)"

definition commuting_terms :: "pauliop \<Rightarrow> pauliop" where
  "commuting_terms H = map (\<lambda>v. (v, 1)) (remdups (filter (universally_commuting H) (map fst H)))"

fun subsets :: "nat \<Rightarrow> bool list list" where
  "subsets 0 = [[]]"
| "subsets (Suc k) = concat (map (\<lambda>b. map (\<lambda>r. b # r) (subsets k)) [False, True])"

definition reconstructs :: "bool \<Rightarrow> pauliop \<Rightarrow> pvec \<Rightarrow> bool list \<Rightarrow> bool" where
  "reconstructs jordan gens t sel =
     (let chosen = map fst (mask_select sel gens)
      in foldl xor_rows (replicate (length t) False) chosen = t
         \<and> (if jordan then list_all (\<lambda>a. list_all (\<lambda>b. commutes a b) chosen) chosen else True))"

definition reconstruct_row :: "bool \<Rightarrow> pauliop \<Rightarrow> pvec \<Rightarrow> int list \<times> bool" where
  "reconstruct_row jordan gens t =
     (case find (reconstructs jordan gens t) (subsets (length gens)) of
        None \<Rightarrow> (replicate (length gens) 0, False)
      | Some sel \<Rightarrow> (map (\<lambda>b. if b then 1 else 0) sel, True))"

definition subset_reconstruction :: "bool \<Rightarrow> pauliop \<Rightarrow> pauliop \<Rightarrow> int list list \<times> bool list" where
  "subset_reconstruction jordan H gens =
     (map (\<lambda>(v, c). fst (reconstruct_row jordan gens v)) H,
      map (\<lambda>(v, c). snd (reconstruct_row jordan gens v)) H)"

fun insert_into_cliques :: "pvec \<times> complex \<Rightarrow> pauliop list \<Rightarrow> pauliop list" where
  "insert_into_cliques t [] = [[t]]"
| "insert_into_cliques t (C # Cs) =
     (if list_all (\<lambda>(w, d). commutes (fst t) w) C then (C @ [t]) # Cs
      else C # insert_into_cliques t Cs)"

definition greedy_clique_cover :: "pauliop \<Rightarrow> pauliop list" where
  "greedy_clique_cover A = foldl (\<lambda>Cs t. insert_into_cliques t Cs) [] A"

definition reference_layer :: pauli_layer where
  "reference_layer =
     \<lparr>is_noncontextual = commutation_transitive,
      symmetry_generators_of = commuting_terms,
      generator_reconstruction = subset_reconstruction False,
      jordan_generator_reconstruction = subset_reconstruction True,
      clique_cover = greedy_clique_cover\<rparr>"

definition toy_H :: pauliop where
  "toy_H = [(pauli_row ''ZI'', 1), (pauli_row ''IX'', 2), (pauli_row ''IZ'', 3), (pauli_row ''ZX'', 4)]"

lemma toy_noncontextual: "commutation_transitive toy_H"
  by code_simp

lemma toy_generators: "commuting_terms toy_H = [(pauli_row ''ZI'', 1)]"
  by code_simp

lemma toy_symmetry_mask:
  "subset_reconstruction False toy_H [(pauli_row ''ZI'', 1)] = ([[1], [0], [0], [0]], [True, False, False, False])"
  by code_simp

lemma toy_cliques:
  "greedy_clique_cover [(pauli_row ''IX'', 2), (pauli_row ''IZ'', 3), (pauli_row ''ZX'', 4)]
     = [[(pauli_row ''IX'', 2), (pauli_row ''ZX'', 4)], [(pauli_row ''IZ'', 3)]]"
  by code_simp

lemma toy_jordan:
  "subset_reconstruction True toy_H [(pauli_row ''ZI'', 1), (pauli_row ''IZ'', 1), (pauli_row ''ZX'', 1)]
     = ([[1, 0, 0], [1, 0, 1], [0, 1, 0], [0, 0, 1]], [True, True, True, True])"
  by code_simp

lemma toy_clique_op:
  "foldl (\<lambda>A t. op_add A [t]) [] [(pauli_row ''ZX'', 4), (pauli_row ''IZ'', 3)]
     = [(pauli_row ''IZ'', 3), (pauli_row ''ZX'', 4)]"
  by code_simp

lemma toy_anticommuting:
  "sum_list (concat (anti_comm_check [pauli_row ''IZ'', pauli_row ''ZX''])) = 0"
  by code_simp

lemma toy_signs:
  "collect (map (multiply_indices 2 [(pauli_row ''ZI'', 1), (pauli_row ''IZ'', 1), (pauli_row ''ZX'', 1)])
                [[1, 0, 0], [1, 0, 1], [0, 1, 0], [0, 0, 1]]) = Inr [1, 1, 1, 1]"
  by code_simp

lemma subsets_length: "sel \<in> set (subsets k) \<Longrightarrow> length sel = k"
  by (induction k arbitrary: sel) auto

lemma reconstruct_row_length: "length (fst (reconstruct_row jordan gens t)) = length gens"
proof (cases "find (reconstructs jordan gens t) (subsets (length gens))")
  case None
  then show ?thesis by (simp add: reconstruct_row_def)
next
  case (Some sel)
  then have "sel \<in> set (subsets (length gens))"
    by (auto simp: find_Some_iff)
  then show ?thesis using Some by (simp add: reconstruct_row_def subsets_length)
qed

lemma reference_layer_jordan_shaped: "jordan_matrix_shaped reference_layer H"
  by (simp add: jordan_matrix_shaped_def reference_layer_def subset_reconstruction_def
        list_all_iff case_prod_unfold reconstruct_row_length)

definition toy_nc :: noncontextual_op where
  "toy_nc =
     \<lparr>nc_terms = toy_H,
      symmetry_generators = [(pauli_row ''ZI'', 1)],
      decomposed = [(Clique 0, [(pauli_row ''IX'', 2), (pauli_row ''ZX'', 4)]),
                    (Clique 1, [(pauli_row ''IZ'', 3)]),
                    (Symmetry, [(pauli_row ''ZI'', 1)])],
      n_cliques = 2,
      clique_operator = [(pauli_row ''IZ'', 3), (pauli_row ''ZX'', 4)],
      G_indices = [[1], [1], [0], [0]],
      C_indices = [[0, 0], [0, 1], [1, 0], [0, 1]],
      mask_S0 = [True, False, False, False],
      mask_Ci = [[False, False, True, False], [False, True, False, True]],
      pauli_mult_signs = [1, 1, 1, 1]\<rparr>"

lemma toy_representatives:
  "hd (sort_by_magnitude [(pauli_row ''IX'', 2), (pauli_row ''ZX'', 4)]) = (pauli_row ''ZX'', 4)"
  "hd (sort_by_magnitude [(pauli_row ''IZ'', 3)]) = (pauli_row ''IZ'', 3)"
  by (simp_all add: sort_by_magnitude_def)

lemma toy_clique_op_unfolded:
  "op_add (op_add [] [(pauli_row ''ZX'', 4)]) [(pauli_row ''IZ'', 3)]
     = [(pauli_row ''IZ'', 3), (pauli_row ''ZX'', 4)]"
  using toy_clique_op by simp

lemma toy_generators_result:
  "noncontextual_generators reference_layer toy_H
     = Inr ([(pauli_row ''ZI'', 1)],
            [[(pauli_row ''IX'', 2), (pauli_row ''ZX'', 4)], [(pauli_row ''IZ'', 3)]],
            [(pauli_row ''IZ'', 3), (pauli_row ''ZX'', 4)],
            [(Clique 0, [(pauli_row ''IX'', 2), (pauli_row ''ZX'', 4)]),
             (Clique 1, [(pauli_row ''IZ'', 3)]),
             (Symmetry, [(pauli_row ''ZI'', 1)])])"
proof -
  have sel: "mask_select [False, True, True, True] toy_H
               = [(pauli_row ''IX'', 2), (pauli_row ''IZ'', 3), (pauli_row ''ZX'', 4)]"
    "mask_select [True, False, False, False] toy_H = [(pauli_row ''ZI'', 1)]"
    by (simp_all add: mask_select_def toy_H_def)
  have len: "length toy_H = 4" by (simp add: toy_H_def)
  show ?thesis
    unfolding noncontextual_generators_def
    by (simp add: reference_layer_def toy_generators toy_symmetry_mask Let_def len sel toy_cliques
          toy_representatives toy_clique_op_unfolded toy_anticommuting)
qed

lemma toy_signs_unfolded:
  "collect [multiply_indices 2 [(pauli_row ''ZI'', 1), (pauli_row ''IZ'', 1), (pauli_row ''ZX'', 1)] [1, 0, 0],
            multiply_indices 2 [(pauli_row ''ZI'', 1), (pauli_row ''IZ'', 1), (pauli_row ''ZX'', 1)] [1, 0, 1],
            multiply_indices 2 [(pauli_row ''ZI'', 1), (pauli_row ''IZ'', 1), (pauli_row ''ZX'', 1)] [0, 1, 0],
            multiply_indices 2 [(pauli_row ''ZI'', 1), (pauli_row ''IZ'', 1), (pauli_row ''ZX'', 1)] [0, 0, 1]]
     = Inr [1, 1, 1, 1]"
  using toy_signs by simp

lemma toy_constructed: "NoncontextualOp reference_layer 2 toy_H = Inr toy_nc"
proof -
  have J: "jordan_generator_reconstruction reference_layer toy_H
             [(pauli_row ''ZI'', 1), (pauli_row ''IZ'', 1), (pauli_row ''ZX'', 1)]
           = ([[1, 0, 0], [1, 0, 1], [0, 1, 0], [0, 0, 1]], [True, True, True, True])"
    by (simp add: reference_layer_def toy_jordan)
  have nc: "is_noncontextual reference_layer toy_H"
    by (simp add: reference_layer_def toy_noncontextual)
  show ?thesis
    unfolding NoncontextualOp_def
    by (simp add: nc toy_generators_result noncontextual_reconstruction_def Let_def J toy_signs_unfolded
          set_reconstruction_def toy_nc_def)
qed

section \<open>The energy and the brute-force minimum on the toy Hamiltonian\<close>

lemma toy_energy_plus: "get_energy toy_nc [1] = Inr (1 - sqrt 45)"
  by (simp add: get_energy_def get_symmetry_contributions_def toy_nc_def toy_H_def Let_def
        count_nonzero_and_def mask_select_def linalg_norm_def)

lemma toy_energy_minus: "get_energy toy_nc [- 1] = Inr (- 1 - sqrt 13)"
  by (simp add: get_energy_def get_symmetry_contributions_def toy_nc_def toy_H_def Let_def
        count_nonzero_and_def mask_select_def linalg_norm_def)

theorem get_energy_matches_spec_witness:
  "NoncontextualOp reference_layer 2 toy_H = Inr toy_nc
   \<and> jordan_matrix_shaped reference_layer toy_H
   \<and> length [1 :: real] = length (symmetry_generators toy_nc)
   \<and> get_energy toy_nc [1] = Inr (energy_spec toy_nc [1])
   \<and> energy_spec toy_nc [1] = 1 - sqrt 45"
proof -
  have l: "length [1 :: real] = length (symmetry_generators toy_nc)"
    by (simp add: toy_nc_def)
  have e: "get_energy toy_nc [1] = Inr (energy_spec toy_nc [1])"
    by (rule get_energy_matches_spec[OF toy_constructed reference_layer_jordan_shaped l])
  then have "energy_spec toy_nc [1] = 1 - sqrt 45"
    using toy_energy_plus by simp
  with e l toy_constructed reference_layer_jordan_shaped show ?thesis by blast
qed


lemma NoncontextualSolver_Inr:
  assumes "NoncontextualSolver nc msk eig = Inr S"
  shows "NC_op S = nc \<and> length (filter id (fixed_ev_mask S)) = length (fixed_eigvals S)"
  using assms
  by (auto simp: NoncontextualSolver_def split: option.splits if_splits)

text \<open>
  C5.  On a NoncontextualOp that the constructor returned and a solver built from it,
  with a mask of one entry for each symmetry generator, \<open>energy_via_brute_force\<close> returns
  a pair \<open>(energy, nu)\<close>: \<open>nu\<close> has the fixed eigenvalues at the positions of the mask,
  \<open>energy\<close> is \<open>get_energy nu\<close>, and \<open>energy\<close> is at most \<open>get_energy nu'\<close> for every \<open>nu'\<close>
  of entries \<open>\<plusminus>1\<close> that has the fixed eigenvalues at the positions of the mask.
\<close>

theorem brute_force_finds_minimum:
  assumes "NoncontextualOp L n H = Inr nc" "jordan_matrix_shaped L H"
    and "NoncontextualSolver nc msk eig = Inr S"
    and "length (fixed_ev_mask S) = length (symmetry_generators nc)"
  shows "\<exists>e nu. energy_via_brute_force S = Inr (e, nu)
      \<and> length nu = length (fixed_ev_mask S)
      \<and> mask_select (fixed_ev_mask S) nu = fixed_eigvals S
      \<and> get_energy nc (map real_of_int nu) = Inr e
      \<and> (\<forall>nu'. length nu' = length (fixed_ev_mask S) \<and> set nu' \<subseteq> {- 1, 1}
               \<and> mask_select (fixed_ev_mask S) nu' = fixed_eigvals S
            \<longrightarrow> (\<exists>e'. get_energy nc (map real_of_int nu') = Inr e' \<and> e \<le> e'))"
proof -
  have S: "NC_op S = nc" and cnt: "length (filter id (fixed_ev_mask S)) = length (fixed_eigvals S)"
    using NoncontextualSolver_Inr[OF assms(3)] by simp_all
  have rec: "reconstructed (NC_op S)"
    using NoncontextualOp_reconstructed[OF assms(1,2)] S by simp
  have len: "length (fixed_ev_mask S) = length (symmetry_generators (NC_op S))"
    using assms(4) S by simp
  show ?thesis
    using brute_force_reconstructed[OF rec len cnt] unfolding S .
qed

definition toy_solver :: noncontextual_solver where
  "toy_solver = \<lparr>NC_op = toy_nc, fixed_ev_mask = [False], fixed_eigvals = []\<rparr>"

lemma toy_solver_constructed: "NoncontextualSolver toy_nc None None = Inr toy_solver"
  by (simp add: NoncontextualSolver_def toy_solver_def toy_nc_def)

lemma sqrt_13_45: "1 - sqrt 45 < - 1 - sqrt 13"
proof -
  have "sqrt 13 < 4" by (rule real_less_lsqrt) simp_all
  moreover have "6 \<le> sqrt 45" by (rule real_le_rsqrt) simp
  ultimately show ?thesis by linarith
qed

lemma toy_brute_force: "energy_via_brute_force toy_solver = Inr (1 - sqrt 45, [1])"
proof -
  have p: "product_pm (Suc 0) = [[- 1], [1]]" by simp
  have g: "length (symmetry_generators toy_nc) = Suc 0" by (simp add: toy_nc_def)
  show ?thesis
    using sqrt_13_45
    by (simp add: energy_via_brute_force_def toy_solver_def Let_def p g
          toy_energy_plus toy_energy_minus)
qed

theorem brute_force_finds_minimum_witness:
  "NoncontextualOp reference_layer 2 toy_H = Inr toy_nc
   \<and> jordan_matrix_shaped reference_layer toy_H
   \<and> NoncontextualSolver toy_nc None None = Inr toy_solver
   \<and> length (fixed_ev_mask toy_solver) = length (symmetry_generators toy_nc)
   \<and> energy_via_brute_force toy_solver = Inr (1 - sqrt 45, [1])
   \<and> (\<exists>e'. get_energy toy_nc (map real_of_int [- 1]) = Inr e' \<and> 1 - sqrt 45 \<le> e')"
proof -
  have l: "length (fixed_ev_mask toy_solver) = length (symmetry_generators toy_nc)"
    by (simp add: toy_solver_def toy_nc_def)
  obtain e nu where r: "energy_via_brute_force toy_solver = Inr (e, nu)"
    and least: "\<forall>nu'. length nu' = length (fixed_ev_mask toy_solver) \<and> set nu' \<subseteq> {- 1, 1}
               \<and> mask_select (fixed_ev_mask toy_solver) nu' = fixed_eigvals toy_solver
            \<longrightarrow> (\<exists>e'. get_energy toy_nc (map real_of_int nu') = Inr e' \<and> e \<le> e')"
    using brute_force_finds_minimum[OF toy_constructed reference_layer_jordan_shaped toy_solver_constructed l]
    by blast
  have e: "e = 1 - sqrt 45" using r toy_brute_force by simp
  have "length [- 1 :: int] = length (fixed_ev_mask toy_solver) \<and> set [- 1 :: int] \<subseteq> {- 1, 1}
        \<and> mask_select (fixed_ev_mask toy_solver) [- 1 :: int] = fixed_eigvals toy_solver"
    by (simp add: toy_solver_def mask_select_def)
  with least have "\<exists>e'. get_energy toy_nc (map real_of_int [- 1]) = Inr e' \<and> e \<le> e'"
    by blast
  then show ?thesis
    using toy_constructed reference_layer_jordan_shaped toy_solver_constructed l toy_brute_force
    unfolding e by blast
qed

section \<open>The decomposition\<close>

text \<open>
  The contract of the clique cover (spec, section 4.4): the cliques are a partition of
  the terms it is given, here the terms of \<open>H\<close> outside the symmetry mask.
\<close>

definition clique_cover_partitions :: "pauli_layer \<Rightarrow> pauliop \<Rightarrow> bool" where
  "clique_cover_partitions L H =
     (let symmetry_mask = snd (generator_reconstruction L H (symmetry_generators_of L H));
          rest = mask_select (map Not symmetry_mask) H
      in mset (concat (clique_cover L rest)) = mset rest)"

lemma mask_select_partition:
  "length m = length xs \<Longrightarrow> mset (mask_select m xs) + mset (mask_select (map Not m) xs) = mset xs"
proof (induction m xs rule: list_induct2)
  case Nil
  then show ?case by simp
next
  case (Cons b m x xs)
  then show ?case by (cases b) simp_all
qed

lemma noncontextual_generators_blocks:
  assumes "noncontextual_generators L H = Inr (gens, cliques, clique_op, blocks)"
  shows "length (snd (generator_reconstruction L H (symmetry_generators_of L H))) = length H
       \<and> cliques = clique_cover L (mask_select (map Not (snd (generator_reconstruction L H (symmetry_generators_of L H)))) H)
       \<and> blocks = zip (map Clique [0 ..< length cliques]) cliques
                   @ [(Symmetry, mask_select (snd (generator_reconstruction L H (symmetry_generators_of L H))) H)]"
  using assms
  by (auto simp: noncontextual_generators_def Let_def split: if_splits)

lemma noncontextual_reconstruction_frame:
  assumes "noncontextual_reconstruction L n H nc0 = Inr nc"
  shows "decomposed nc = decomposed nc0 \<and> n_cliques nc = n_cliques nc0 \<and> nc_terms nc = nc_terms nc0"
  using assms
  by (auto simp: noncontextual_reconstruction_def set_reconstruction_def Let_def
           split: if_splits sum.splits prod.splits)

lemma cleanup_append_left: "cleanup (cleanup A @ B) = cleanup (A @ B)"
  by (rule cleanup_cong) (simp add: coeff_of_append coeff_of_cleanup)

lemma cleanup_foldl_op_add: "cleanup (foldl op_add A Bs) = cleanup (A @ concat Bs)"
proof (induction Bs arbitrary: A)
  case Nil
  then show ?case by simp
next
  case (Cons B Bs)
  have "cleanup (foldl op_add (op_add A B) Bs) = cleanup (op_add A B @ concat Bs)"
    by (rule Cons.IH)
  also have "\<dots> = cleanup ((A @ B) @ concat Bs)"
    unfolding op_add_def by (rule cleanup_append_left)
  finally show ?case by simp
qed

lemma cleanup_mset: "mset A = mset B \<Longrightarrow> cleanup A = cleanup B"
proof (rule cleanup_cong)
  fix v
  assume "mset A = mset B"
  then have "mset (map snd (filter (\<lambda>(w, c). w = v) A)) = mset (map snd (filter (\<lambda>(w, c). w = v) B))"
    by (metis mset_filter mset_map)
  then show "coeff_of A v = coeff_of B v"
    unfolding coeff_of_def by (metis sum_mset_sum_list)
qed

lemma distinct_concat_unique_block:
  "distinct (concat bs) \<Longrightarrow> i < length bs \<Longrightarrow> j < length bs
     \<Longrightarrow> t \<in> set (bs ! i) \<Longrightarrow> t \<in> set (bs ! j) \<Longrightarrow> i = j"
proof (induction bs arbitrary: i j)
  case Nil
  then show ?case by simp
next
  case (Cons b bs)
  show ?case
  proof (cases i)
    case 0
    show ?thesis
    proof (cases j)
      case (Suc j')
      with 0 Cons.prems have "t \<in> set b" "t \<in> set (bs ! j')" "j' < length bs" by simp_all
      then have "t \<in> set b \<inter> \<Union> (set ` set bs)" by (auto intro: nth_mem)
      with Cons.prems(1) show ?thesis by auto
    qed (simp add: 0)
  next
    case (Suc i')
    show ?thesis
    proof (cases j)
      case 0
      with Suc Cons.prems have "t \<in> set b" "t \<in> set (bs ! i')" "i' < length bs" by simp_all
      then have "t \<in> set b \<inter> \<Union> (set ` set bs)" by (auto intro: nth_mem)
      with Cons.prems(1) show ?thesis by auto
    next
      case (Suc j')
      with \<open>i = Suc i'\<close> Cons.prems Cons.IH[of i' j'] show ?thesis by simp
    qed
  qed
qed

lemma decomposed_keys:
  "map fst (zip (map Clique [0 ..< length cliques]) cliques @ [(Symmetry, S)])
     = map Clique [0 ..< length cliques] @ [Symmetry]"
  "map snd (zip (map Clique [0 ..< length cliques]) cliques @ [(Symmetry, S)]) = cliques @ [S]"
  by simp_all

lemma decomposed_keys_distinct: "distinct (map Clique [0 ..< M] @ [Symmetry])"
  by (auto simp: distinct_map inj_on_def)

text \<open>
  C1.  When the constructor succeeds on \<open>H\<close>, with a clique cover that partitions the terms
  it is given: \<open>H\<close> is noncontextual; the keys of the decomposition are \<open>0, \<dots>, M - 1\<close> and
  \<open>'symmetry'\<close>; the terms of all blocks together are the terms of \<open>H\<close>, each as often as in
  \<open>H\<close> and with its coefficient; the sum of all blocks is \<open>H\<close> as an operator; and when the
  terms of \<open>H\<close> are distinct, every term of \<open>H\<close> lies in the block of exactly one key.
\<close>

theorem decomposition_partitions_terms:
  assumes "NoncontextualOp L n H = Inr nc" and "clique_cover_partitions L H"
  shows "is_noncontextual L H
       \<and> map fst (decomposed nc) = map Clique [0 ..< n_cliques nc] @ [Symmetry]
       \<and> mset (concat (map snd (decomposed nc))) = mset H
       \<and> cleanup (foldl op_add [] (map snd (decomposed nc))) = cleanup H
       \<and> (distinct H \<longrightarrow>
            (\<forall>t \<in> set H. \<exists>!key. \<exists>block. (key, block) \<in> set (decomposed nc) \<and> t \<in> set block))"
proof -
  let ?m = "snd (generator_reconstruction L H (symmetry_generators_of L H))"
  from NoncontextualOp_Inr[OF assms(1)] obtain gens and cliques :: "pauliop list" and clique_op blocks
    where nc: "is_noncontextual L H"
      and g: "noncontextual_generators L H = Inr (gens, cliques, clique_op, blocks)"
      and r: "noncontextual_reconstruction L n H
        \<lparr>nc_terms = H, symmetry_generators = gens, decomposed = blocks,
         n_cliques = length cliques, clique_operator = clique_op,
         G_indices = [], C_indices = [], mask_S0 = [], mask_Ci = [], pauli_mult_signs = []\<rparr> = Inr nc"
    by blast
  from noncontextual_generators_blocks[OF g]
  have len: "length ?m = length H"
    and cl: "cliques = clique_cover L (mask_select (map Not ?m) H)"
    and bl: "blocks = zip (map Clique [0 ..< length cliques]) cliques @ [(Symmetry, mask_select ?m H)]"
    by blast+
  from noncontextual_reconstruction_frame[OF r]
  have d: "decomposed nc = blocks" and M: "n_cliques nc = length cliques" by simp_all
  have keys: "map fst (decomposed nc) = map Clique [0 ..< n_cliques nc] @ [Symmetry]"
    unfolding d M bl by (rule decomposed_keys)
  have blocks_of: "map snd (decomposed nc) = cliques @ [mask_select ?m H]"
    unfolding d bl by (rule decomposed_keys)
  have "mset (concat cliques) = mset (mask_select (map Not ?m) H)"
    using assms(2) cl by (simp add: clique_cover_partitions_def Let_def)
  then have ms: "mset (concat (map snd (decomposed nc))) = mset H"
    unfolding blocks_of using mask_select_partition[OF len] by (simp add: ac_simps)
  have sum: "cleanup (foldl op_add [] (map snd (decomposed nc))) = cleanup H"
    unfolding cleanup_foldl_op_add using cleanup_mset[OF ms] by simp
  have one: "\<exists>!key. \<exists>block. (key, block) \<in> set (decomposed nc) \<and> t \<in> set block"
    if dist: "distinct H" and t: "t \<in> set H" for t
  proof -
    let ?bs = "map snd (decomposed nc)"
    have dc: "distinct (concat ?bs)"
      using ms dist by (metis mset_eq_imp_distinct_iff)
    have "t \<in> set (concat ?bs)"
      using ms t by (metis mset_eq_setD)
    then obtain key block where kb: "(key, block) \<in> set (decomposed nc)" "t \<in> set block"
      by auto
    have "key' = key" if "(key', block') \<in> set (decomposed nc)" "t \<in> set block'" for key' block'
    proof -
      from kb(1) obtain i where i: "i < length (decomposed nc)" "decomposed nc ! i = (key, block)"
        by (auto simp: in_set_conv_nth)
      from that(1) obtain j where j: "j < length (decomposed nc)" "decomposed nc ! j = (key', block')"
        by (auto simp: in_set_conv_nth)
      have "i = j"
        by (rule distinct_concat_unique_block[OF dc, of i j t]) (use i j kb(2) that(2) in simp_all)
      with i j show ?thesis by simp
    qed
    with kb show ?thesis by blast
  qed
  from nc keys ms sum one show ?thesis by blast
qed

lemma toy_cover_partitions: "clique_cover_partitions reference_layer toy_H"
proof -
  have sel: "mask_select [False, True, True, True] toy_H
               = [(pauli_row ''IX'', 2), (pauli_row ''IZ'', 3), (pauli_row ''ZX'', 4)]"
    by (simp add: toy_H_def)
  show ?thesis
    by (simp add: clique_cover_partitions_def reference_layer_def toy_generators toy_symmetry_mask
          sel toy_cliques)
qed

lemma toy_distinct: "distinct toy_H"
  by code_simp

theorem decomposition_partitions_terms_witness:
  "NoncontextualOp reference_layer 2 toy_H = Inr toy_nc
   \<and> clique_cover_partitions reference_layer toy_H
   \<and> is_noncontextual reference_layer toy_H
   \<and> map fst (decomposed toy_nc) = [Clique 0, Clique 1, Symmetry]
   \<and> mset (concat (map snd (decomposed toy_nc))) = mset toy_H
   \<and> cleanup (foldl op_add [] (map snd (decomposed toy_nc))) = cleanup toy_H
   \<and> distinct toy_H
   \<and> (\<exists>!key. \<exists>block. (key, block) \<in> set (decomposed toy_nc) \<and> (pauli_row ''ZX'', 4) \<in> set block)"
proof -
  note th = decomposition_partitions_terms[OF toy_constructed toy_cover_partitions]
  have keys: "map Clique [0 ..< n_cliques toy_nc] @ [Symmetry] = [Clique 0, Clique 1, Symmetry]"
    by (simp add: toy_nc_def upt_rec)
  have mem: "(pauli_row ''ZX'', 4) \<in> set toy_H" by (simp add: toy_H_def)
  from th toy_distinct mem
  have "\<exists>!key. \<exists>block. (key, block) \<in> set (decomposed toy_nc) \<and> (pauli_row ''ZX'', 4) \<in> set block"
    by blast
  with th keys toy_constructed toy_cover_partitions toy_distinct show ?thesis by simp
qed

section \<open>The rounding of the relaxation\<close>

definition z_H :: pauliop where
  "z_H = [(pauli_row ''Z'', 1)]"

definition z_nc :: noncontextual_op where
  "z_nc =
     \<lparr>nc_terms = z_H,
      symmetry_generators = [(pauli_row ''Z'', 1)],
      decomposed = [(Symmetry, [(pauli_row ''Z'', 1)])],
      n_cliques = 0,
      clique_operator = [],
      G_indices = [[1]],
      C_indices = [[]],
      mask_S0 = [True],
      mask_Ci = [],
      pauli_mult_signs = [1]\<rparr>"

definition z_solver :: noncontextual_solver where
  "z_solver = \<lparr>NC_op = z_nc, fixed_ev_mask = [False], fixed_eigvals = []\<rparr>"

lemma z_noncontextual: "commutation_transitive z_H"
  by code_simp

lemma z_generators: "commuting_terms z_H = [(pauli_row ''Z'', 1)]"
  by code_simp

lemma z_symmetry_mask: "subset_reconstruction False z_H [(pauli_row ''Z'', 1)] = ([[1]], [True])"
  by code_simp

lemma z_jordan: "subset_reconstruction True z_H [(pauli_row ''Z'', 1)] = ([[1]], [True])"
  by code_simp

lemma z_signs: "multiply_indices (Suc 0) [(pauli_row ''Z'', 1)] [1] = Inr 1"
  by code_simp

lemma z_cliques: "greedy_clique_cover [] = []"
  by (simp add: greedy_clique_cover_def)

lemma z_anticommuting: "sum_list (concat (anti_comm_check [])) = 0"
  by (simp add: anti_comm_check_def)

lemma z_generators_result:
  "noncontextual_generators reference_layer z_H
     = Inr ([(pauli_row ''Z'', 1)], [], [], [(Symmetry, [(pauli_row ''Z'', 1)])])"
proof -
  have sel: "mask_select [False] z_H = []" "mask_select [True] z_H = [(pauli_row ''Z'', 1)]"
    by (simp_all add: z_H_def)
  have len: "length z_H = 1" by (simp add: z_H_def)
  show ?thesis
    unfolding noncontextual_generators_def
    by (simp add: reference_layer_def z_generators z_symmetry_mask Let_def len sel z_cliques
          z_anticommuting)
qed

lemma z_constructed: "NoncontextualOp reference_layer 1 z_H = Inr z_nc"
proof -
  have J: "jordan_generator_reconstruction reference_layer z_H [(pauli_row ''Z'', 1)] = ([[1]], [True])"
    by (simp add: reference_layer_def z_jordan)
  have nc: "is_noncontextual reference_layer z_H"
    by (simp add: reference_layer_def z_noncontextual)
  show ?thesis
    unfolding NoncontextualOp_def
    by (simp add: nc z_generators_result noncontextual_reconstruction_def Let_def J z_signs
          set_reconstruction_def z_nc_def)
qed

lemma z_solver_constructed: "NoncontextualSolver z_nc None None = Inr z_solver"
  by (simp add: NoncontextualSolver_def z_solver_def z_nc_def)

lemma z_energy: "get_energy z_nc [x] = Inr (if x = - 1 then - 1 else 1)"
  by (simp add: get_energy_def get_symmetry_contributions_def z_nc_def z_H_def Let_def
        count_nonzero_and_def linalg_norm_def)

lemma cos_cos_pos: "0 < cos (cos (x :: real))"
proof -
  define s where "s = sin (cos x / 2)"
  have "\<bar>s\<bar> \<le> \<bar>cos x / 2\<bar>" unfolding s_def by (rule abs_sin_x_le_abs_x)
  also have "\<dots> \<le> 1 / 2" using abs_cos_le_one[of x] by simp
  finally have "\<bar>s\<bar> \<le> 1 / 2" .
  then have "s\<^sup>2 \<le> (1 / 2)\<^sup>2"
    using abs_le_square_iff[of s "1 / 2"] by simp
  then have sq: "s\<^sup>2 \<le> 1 / 4" by (simp add: power2_eq_square)
  have "cos (cos x) = cos (2 * (cos x / 2))" by simp
  also have "\<dots> = 1 - 2 * s\<^sup>2" unfolding s_def by (rule cos_double_sin)
  finally show ?thesis using sq by simp
qed

lemma z_relaxation:
  "energy_via_relaxation (\<lambda>objective bounds. ([x], e)) z_solver
     = Inr ((e, [1]),
            z_solver\<lparr>NC_op := z_nc\<lparr>symmetry_generators := [(pauli_row ''Z'', 1)]\<rparr>\<rparr>)"
proof -
  have g: "symmetry_generators z_nc = [(pauli_row ''Z'', 1)]" by (simp add: z_nc_def)
  have s: "truncate_to_int (np_sign (cos (cos x))) = 1"
    using cos_cos_pos[of x] by (simp add: np_sign_def truncate_to_int_def)
  show ?thesis
    by (simp add: energy_via_relaxation_def z_solver_def Let_def get_nu_def g s)
qed

lemma z_brute_force: "energy_via_brute_force z_solver = Inr (- 1, [- 1])"
proof -
  have p: "product_pm (Suc 0) = [[- 1], [1]]" by simp
  have g: "length (symmetry_generators z_nc) = Suc 0" by (simp add: z_nc_def)
  show ?thesis
    by (simp add: energy_via_brute_force_def z_solver_def Let_def p g z_energy)
qed

text \<open>
  C7.  The operator \<open>Z\<close> on one qubit has one symmetry generator and no clique, and its
  energy is \<open>-1\<close> at \<open>nu = [-1]\<close> and \<open>1\<close> elsewhere, so the relaxed objective has its optimum
  at the angle \<open>\<pi>\<close>, where the sign of the cosine is \<open>-1\<close>.  Whatever point and value the
  optimizer returns, the vector returned by \<open>energy_via_relaxation\<close> is \<open>[1]\<close>: line 564
  passes the cosines of the angles to \<open>get_nu\<close>, which takes the cosine again, and the
  cosine of a number in \<open>[-1, 1]\<close> is positive.  The brute-force solver returns \<open>[-1]\<close>.
\<close>

theorem relaxation_rounds_every_free_entry_to_one:
  "NoncontextualOp reference_layer 1 z_H = Inr z_nc
   \<and> NoncontextualSolver z_nc None None = Inr z_solver
   \<and> (\<forall>x. get_energy z_nc [x] = Inr (if x = - 1 then - 1 else 1))
   \<and> cos pi = - 1
   \<and> truncate_to_int (np_sign (cos pi)) = - 1
   \<and> (\<forall>x e. \<exists>S'. energy_via_relaxation (\<lambda>objective bounds. ([x], e)) z_solver = Inr ((e, [1]), S'))
   \<and> get_energy z_nc (map real_of_int [1]) = Inr 1
   \<and> energy_via_brute_force z_solver = Inr (- 1, [- 1])"
proof -
  have "truncate_to_int (np_sign (cos pi)) = - 1"
    using ceiling_of_int[of "- 1", where ?'a = real] by (simp add: np_sign_def truncate_to_int_def)
  moreover have "\<forall>x e. \<exists>S'. energy_via_relaxation (\<lambda>objective bounds. ([x], e)) z_solver = Inr ((e, [1]), S')"
    using z_relaxation by blast
  moreover have "get_energy z_nc (map real_of_int [1]) = Inr 1"
    using z_energy[of 1] by simp
  ultimately show ?thesis
    using z_constructed z_solver_constructed z_energy z_brute_force by simp
qed

section \<open>The arrays of an operator in a store\<close>

text \<open>
  numpy arrays are mutable and shared by reference: \<open>a[[0, s]] = a[[s, 0]]\<close> writes into the
  array that every holder of \<open>a\<close> sees, while \<open>op.coeff_vec = op.coeff_vec / gamma_l\<close> binds
  the attribute to a new array.  To tell the two apart the arrays live in a store: the
  list of the arrays allocated so far, an address being an index into it.  An object
  holds the addresses of its symplectic matrix and of its coefficient vector, and its two
  caches.
\<close>

datatype cell = Matrix "pvec list" | Vector "real list"

type_synonym store = "cell list"

record ac_object =
  obj_n_qubits :: nat
  symp_ref :: nat
  coeff_ref :: nat
  obj_X_sk_rotations :: "rotation list"
  obj_R_LCU :: lcu_cache

definition matrix_at :: "store \<Rightarrow> nat \<Rightarrow> pvec list" where
  "matrix_at h a = (if a < length h then (case h ! a of Matrix m \<Rightarrow> m | Vector v \<Rightarrow> []) else [])"

definition vector_at :: "store \<Rightarrow> nat \<Rightarrow> real list" where
  "vector_at h a = (if a < length h then (case h ! a of Matrix m \<Rightarrow> [] | Vector v \<Rightarrow> v) else [])"

definition alloc :: "store \<Rightarrow> cell \<Rightarrow> nat \<times> store" where
  "alloc h c = (length h, h @ [c])"

definition terms_at :: "store \<Rightarrow> ac_object \<Rightarrow> real_op" where
  "terms_at h obj = zip (matrix_at h (symp_ref obj)) (vector_at h (coeff_ref obj))"

text \<open>The operator that an object stands for in a store.\<close>

definition read_object :: "store \<Rightarrow> ac_object \<Rightarrow> anticommuting_op" where
  "read_object h obj =
     \<lparr>n_qubits = obj_n_qubits obj,
      symp_matrix = matrix_at h (symp_ref obj),
      coeff_vec = vector_at h (coeff_ref obj),
      X_sk_rotations = obj_X_sk_rotations obj,
      R_LCU = obj_R_LCU obj\<rparr>"

text \<open>
  Modelled from the spec: \<open>copy\<close> of PauliwordOp (not in src/).  The spec describes the
  operations as pure functions over immutable inputs, each worker on a private copy of
  the operator's data (section 5); so the copy holds new arrays with the contents of the
  old ones, and its own caches.
\<close>

definition copy_object :: "store \<Rightarrow> ac_object \<Rightarrow> store \<times> ac_object" where
  "copy_object h obj =
     (let (a, h1) = alloc h (Matrix (matrix_at h (symp_ref obj)));
          (b, h2) = alloc h1 (Vector (vector_at h (coeff_ref obj)))
      in (h2, obj\<lparr>symp_ref := a, coeff_ref := b\<rparr>))"

text \<open>\<open>np.delete(a, k, axis=0)\<close>: a new array without row \<open>k\<close>.\<close>

definition delete_row :: "nat \<Rightarrow> 'a list \<Rightarrow> 'a list" where
  "delete_row k xs = take k xs @ drop (Suc k) xs"

subsection \<open>_recursive_seq_rotations on the store\<close>

text \<open>
  One pass through the else branch (lines 84-119), up to the recursive call: the copy
  of line 88, the angle and the generator as in \<open>recursive_seq_rotations\<close>, the writes of
  lines 110-111 into the coefficient vector of the copy, and the two new arrays of
  \<open>np.delete\<close> that make the operator of the recursive call.
\<close>

definition rotation_step :: "store \<Rightarrow> ac_object \<Rightarrow> store \<times> (error + rotation \<times> ac_object)" where
  "rotation_step h AC_op =
     (let (h1, op_for_rotation) = copy_object h AC_op
      in case terms_at h1 op_for_rotation of
           (Ps, bs) # (Pk, bk) # rest \<Rightarrow>
             (case theta_sk bs bk of
                None \<Rightarrow> (h1, Inl (AssertionError ''term not zeroing out''))
              | Some th \<Rightarrow>
                  if \<not> isclose (bk * cos th - bs * sin th) 0
                  then (h1, Inl (AssertionError ''term not zeroing out''))
                  else
                   (let c = coeff_ref op_for_rotation;
                        h2 = h1[c := Vector ((vector_at h1 c)[0 := sqrt (bs ^ 2 + bk ^ 2), 1 := 0])];
                        (a, h3) = alloc h2 (Matrix (delete_row 1 (matrix_at h2 (symp_ref op_for_rotation))));
                        (b, h4) = alloc h3 (Vector (delete_row 1 (vector_at h2 c)))
                    in (h4, Inr (recorded_rotation (X_sk Ps Pk) th,
                                 op_for_rotation\<lparr>symp_ref := a, coeff_ref := b\<rparr>))))
         | _ \<Rightarrow> (h1, Inl IndexError))"

lemma matrix_at_Nil [simp]: "matrix_at [] a = []"
  by (simp add: matrix_at_def)

lemma vector_at_Nil [simp]: "vector_at [] a = []"
  by (simp add: vector_at_def)

lemma matrix_at_Cons [simp]:
  "matrix_at (c # cs) 0 = (case c of Matrix m \<Rightarrow> m | Vector v \<Rightarrow> [])"
  "matrix_at (c # cs) (Suc a) = matrix_at cs a"
  by (simp_all add: matrix_at_def)

lemma vector_at_Cons [simp]:
  "vector_at (c # cs) 0 = (case c of Matrix m \<Rightarrow> [] | Vector v \<Rightarrow> v)"
  "vector_at (c # cs) (Suc a) = vector_at cs a"
  by (simp_all add: vector_at_def)

lemma matrix_at_append [simp]:
  "matrix_at (h @ xs) a = (if a < length h then matrix_at h a else matrix_at xs (a - length h))"
  by (auto simp: matrix_at_def nth_append)

lemma vector_at_append [simp]:
  "vector_at (h @ xs) a = (if a < length h then vector_at h a else vector_at xs (a - length h))"
  by (auto simp: vector_at_def nth_append)

lemma matrix_at_update [simp]:
  "matrix_at (h[b := c]) a =
     (if a = b \<and> b < length h then (case c of Matrix m \<Rightarrow> m | Vector v \<Rightarrow> []) else matrix_at h a)"
  by (auto simp: matrix_at_def)

lemma vector_at_update [simp]:
  "vector_at (h[b := c]) a =
     (if a = b \<and> b < length h then (case c of Matrix m \<Rightarrow> [] | Vector v \<Rightarrow> v) else vector_at h a)"
  by (auto simp: vector_at_def)

lemma copy_object_eq:
  "copy_object h obj =
     (h @ [Matrix (matrix_at h (symp_ref obj)), Vector (vector_at h (coeff_ref obj))],
      obj\<lparr>symp_ref := length h, coeff_ref := Suc (length h)\<rparr>)"
  by (simp add: copy_object_def alloc_def)

lemma terms_at_copy:
  "terms_at (h @ [Matrix (matrix_at h (symp_ref obj)), Vector (vector_at h (coeff_ref obj))])
            (obj\<lparr>symp_ref := length h, coeff_ref := Suc (length h)\<rparr>) = terms_at h obj"
  by (simp add: terms_at_def)

lemma zip_two:
  assumes "zip M V = (Ps, bs) # (Pk, bk) # rest"
  shows "\<exists>M' V'. M = Ps # Pk # M' \<and> V = bs # bk # V' \<and> rest = zip M' V'"
proof -
  from assms obtain M1 V1 where 1: "M = Ps # M1" "V = bs # V1" "zip M1 V1 = (Pk, bk) # rest"
    by (cases M; cases V) auto
  from 1(3) obtain M' V' where "M1 = Pk # M'" "V1 = bk # V'" "zip M' V' = rest"
    by (cases M1; cases V1) auto
  with 1 show ?thesis by blast
qed

lemma rotation_step_short:
  assumes "terms_at h obj = [] \<or> (\<exists>t. terms_at h obj = [t])"
  shows "\<exists>h'. rotation_step h obj = (h', Inl IndexError)"
  using assms
  by (auto simp: rotation_step_def copy_object_eq terms_at_copy simp del: append.simps)

lemma rotation_step_long:
  assumes ts: "terms_at h obj = (Ps, bs) # (Pk, bk) # rest"
  shows "\<exists>h'. (case theta_sk bs bk of
            None \<Rightarrow> rotation_step h obj = (h', Inl (AssertionError ''term not zeroing out''))
          | Some th \<Rightarrow>
              if \<not> isclose (bk * cos th - bs * sin th) 0
              then rotation_step h obj = (h', Inl (AssertionError ''term not zeroing out''))
              else (\<exists>obj'. rotation_step h obj = (h', Inr (recorded_rotation (X_sk Ps Pk) th, obj'))
                     \<and> terms_at h' obj' = (Ps, sqrt (bs ^ 2 + bk ^ 2)) # rest))"
proof -
  let ?M = "matrix_at h (symp_ref obj)" and ?V = "vector_at h (coeff_ref obj)"
  let ?h1 = "h @ [Matrix ?M, Vector ?V]"
  let ?op = "obj\<lparr>symp_ref := length h, coeff_ref := Suc (length h)\<rparr>"
  from zip_two[OF ts[unfolded terms_at_def]] obtain M' V'
    where M: "?M = Ps # Pk # M'" and V: "?V = bs # bk # V'" and rest: "rest = zip M' V'"
    by blast
  have t1: "terms_at ?h1 ?op = (Ps, bs) # (Pk, bk) # rest"
    using ts by (simp only: terms_at_copy)
  have m1: "matrix_at ?h1 (length h) = ?M" and v1: "vector_at ?h1 (Suc (length h)) = ?V"
    by simp_all
  show ?thesis
  proof (cases "theta_sk bs bk")
    case None
    then show ?thesis
      by (simp add: rotation_step_def copy_object_eq t1 del: append.simps)
  next
    case (Some th)
    show ?thesis
    proof (cases "isclose (bk * cos th - bs * sin th) 0")
      case False
      with Some show ?thesis
        by (simp add: rotation_step_def copy_object_eq t1 del: append.simps)
    next
      case True
      let ?c = "Suc (length h)"
      let ?h2 = "?h1[?c := Vector ((vector_at ?h1 ?c)[0 := sqrt (bs ^ 2 + bk ^ 2), 1 := 0])]"
      let ?h3 = "?h2 @ [Matrix (delete_row 1 (matrix_at ?h2 (length h)))]"
      let ?h4 = "?h3 @ [Vector (delete_row 1 (vector_at ?h2 ?c))]"
      let ?obj' = "?op\<lparr>symp_ref := length ?h2, coeff_ref := length ?h3\<rparr>"
      have step: "rotation_step h obj = (?h4, Inr (recorded_rotation (X_sk Ps Pk) th, ?obj'))"
        using Some True
        by (simp add: rotation_step_def copy_object_eq t1 Let_def alloc_def del: append.simps list_update.simps)
      have v2: "vector_at ?h2 ?c = sqrt (bs ^ 2 + bk ^ 2) # 0 # V'"
        unfolding v1 V by simp
      have m2: "matrix_at ?h2 (length h) = ?M"
        by simp
      have "terms_at ?h4 ?obj' = zip (delete_row 1 (matrix_at ?h2 (length h))) (delete_row 1 (vector_at ?h2 ?c))"
        by (simp add: terms_at_def del: append.simps list_update.simps)
      also have "\<dots> = (Ps, sqrt (bs ^ 2 + bk ^ 2)) # rest"
      proof -
        have dv: "delete_row 1 (vector_at ?h2 ?c) = sqrt (bs ^ 2 + bk ^ 2) # V'"
          by (simp only: v2) (simp add: delete_row_def)
        have dm: "delete_row 1 (matrix_at ?h2 (length h)) = Ps # M'"
          by (simp only: m2 M) (simp add: delete_row_def)
        show ?thesis by (simp only: dv dm) (simp add: rest)
      qed
      finally show ?thesis
        using Some True step by (simp del: append.simps list_update.simps)
    qed
  qed
qed

lemma rotation_step_shorter:
  assumes "rotation_step h obj = (h', Inr (rot, obj'))"
  shows "length (terms_at h' obj') < length (terms_at h obj)"
proof (cases "terms_at h obj")
  case Nil
  with rotation_step_short[of h obj] assms show ?thesis by auto
next
  case (Cons t ts)
  show ?thesis
  proof (cases ts)
    case Nil
    with Cons rotation_step_short[of h obj] assms show ?thesis by auto
  next
    case (Cons t' rest)
    obtain Ps bs Pk bk where t: "t = (Ps, bs)" "t' = (Pk, bk)"
      by (cases t; cases t') auto
    have ts: "terms_at h obj = (Ps, bs) # (Pk, bk) # rest"
      using \<open>terms_at h obj = t # ts\<close> Cons t by simp
    from rotation_step_long[OF ts] assms show ?thesis
      by (auto simp: ts split: option.splits if_splits)
  qed
qed

function recursive_seq_rotations_store ::
  "store \<Rightarrow> rotation list \<Rightarrow> ac_object \<Rightarrow> store \<times> rotation list \<times> (error + real_op)" where
  "recursive_seq_rotations_store h rots AC_op =
     (if length (terms_at h AC_op) = 1 then (h, rots, Inr (terms_at h AC_op))
      else case rotation_step h AC_op of
             (h', Inl e) \<Rightarrow> (h', rots, Inl e)
           | (h', Inr (rot, AC_op_rotated)) \<Rightarrow>
               recursive_seq_rotations_store h' (rots @ [rot]) AC_op_rotated)"
  by pat_completeness auto

termination
  apply (relation "measure (\<lambda>(h, rots, obj). length (terms_at h obj))")
   apply simp
  apply simp
  apply (metis rotation_step_shorter)
  done

subsection \<open>unitary_partitioning on the store\<close>

text \<open>
  Lines 157-161 on the store: the two assignments of lines 159-160 write into the arrays
  of \<open>AC_op\<close>, and the operator built in line 161 holds these arrays and new, empty caches.
\<close>

definition target_first_store :: "store \<Rightarrow> ac_object \<Rightarrow> int \<Rightarrow> store \<times> (error + ac_object)" where
  "target_first_store h AC_op s_index =
     (if s_index \<noteq> 0 then
        (case array_index (length (vector_at h (coeff_ref AC_op))) s_index of
           Inl e \<Rightarrow> (h, Inl e)
         | Inr s \<Rightarrow>
            (let h1 = h[coeff_ref AC_op := Vector (swap_rows s (vector_at h (coeff_ref AC_op)))];
                 h2 = h1[symp_ref AC_op := Matrix (swap_rows s (matrix_at h1 (symp_ref AC_op)))]
             in if sum_list (concat (anti_comm_check (matrix_at h2 (symp_ref AC_op)))) = 0
                then (h2, Inr (AC_op\<lparr>obj_X_sk_rotations := [], obj_R_LCU := NoLCU\<rparr>))
                else (h2, Inl (AssertionError ''operator needs to be made of anti-commuting Pauli operators''))))
      else (h, Inr AC_op))"

text \<open>
  Lines 143-144 and 151-152: the quotient is a new array, and the attribute
  \<open>AC_op.coeff_vec\<close> is bound to it.
\<close>

definition divide_by_norm :: "store \<Rightarrow> ac_object \<Rightarrow> store \<times> ac_object \<times> real" where
  "divide_by_norm h AC_op =
     (let gamma_l = linalg_norm (vector_at h (coeff_ref AC_op));
          (a, h1) = alloc h (Vector (map (\<lambda>c. c / gamma_l) (vector_at h (coeff_ref AC_op))))
      in (h1, AC_op\<lparr>coeff_ref := a\<rparr>, gamma_l))"

text \<open>
  Lines 163-177, the two methods.  \<open>generate_LCU_operator\<close> reads \<open>AC_op\<close>, builds new
  operators and assigns \<open>self.R_LCU\<close>; it writes into no array, so that it is the function
  on values.
\<close>

definition method_dispatch ::
  "store \<Rightarrow> ac_object \<Rightarrow> real \<Rightarrow> ac_object \<Rightarrow> string \<Rightarrow> store \<times> ac_object \<times> up_result outcome" where
  "method_dispatch h self gamma_l AC_op up_method =
     (let nan = (gamma_l = 0 \<and> terms_at h AC_op \<noteq> [])
      in if up_method = ''seq_rot'' then
           (if nan then (h, self\<lparr>obj_X_sk_rotations := []\<rparr>,
                         Raised (AssertionError ''term not zeroing out''))
            else case recursive_seq_rotations_store h [] AC_op of
              (h', rots, Inl e) \<Rightarrow> (h', self\<lparr>obj_X_sk_rotations := rots\<rparr>, Raised e)
            | (h', rots, Inr Ps) \<Rightarrow>
                (h', self\<lparr>obj_X_sk_rotations := rots\<rparr>,
                 Returned (Ps, Rotations rots, gamma_l, terms_at h AC_op)))
         else if up_method = ''LCU'' then
           (if nan then (h, self\<lparr>obj_R_LCU := CachedNaN\<rparr>, NonFinite)
            else case generate_LCU_operator NoLCU (obj_n_qubits self) (terms_at h AC_op) of
              (cache, Inl e) \<Rightarrow> (h, self\<lparr>obj_R_LCU := cache\<rparr>, Raised e)
            | (cache, Inr None) \<Rightarrow>
                (h, self\<lparr>obj_R_LCU := cache\<rparr>,
                 Returned ([], LCU_operator cache, gamma_l, terms_at h AC_op))
            | (cache, Inr (Some Ps)) \<Rightarrow>
                (h, self\<lparr>obj_R_LCU := cache\<rparr>,
                 Returned (map (\<lambda>(v, c). (v, Re c)) Ps, LCU_operator cache, gamma_l,
                           terms_at h AC_op)))
         else (h, self, Raised (ValueError ''unknown unitary partitioning method'')))"

text \<open>
  Lines 140-177 on the store.  The result is the store and the object \<open>self\<close> after the
  call, and the outcome of the call as in \<open>unitary_partitioning\<close>.  Line 140 copies \<open>self\<close>,
  and line 155 reads \<open>self\<close>.
\<close>

definition unitary_partitioning_store ::
  "store \<Rightarrow> ac_object \<Rightarrow> int option \<Rightarrow> string \<Rightarrow> store \<times> ac_object \<times> up_result outcome" where
  "unitary_partitioning_store h self s_index up_method =
     (let (h1, AC_op) = copy_object h self
      in if length (terms_at h1 AC_op) = 1 then
           (let (h2, AC_op, gamma_l) = divide_by_norm h1 AC_op
            in if gamma_l = 0 then (h2, self, NonFinite)
               else (h2, self, Returned (terms_at h2 AC_op, NoRotations, gamma_l, terms_at h2 AC_op)))
         else
           (let (h2, AC_op, gamma_l) = divide_by_norm h1 AC_op
            in case select_target (read_object h2 self) s_index of
                 Inl e \<Rightarrow> (h2, self, Raised e)
               | Inr s \<Rightarrow>
                  (case target_first_store h2 AC_op s of
                     (h3, Inl e) \<Rightarrow> (h3, self, Raised e)
                   | (h3, Inr AC_op) \<Rightarrow> method_dispatch h3 self gamma_l AC_op up_method)))"

section \<open>The operator is not mutated\<close>

text \<open>\<open>preserves h h'\<close>: every array of the store \<open>h\<close> is in \<open>h'\<close> at its address, unchanged.\<close>

definition preserves :: "store \<Rightarrow> store \<Rightarrow> bool" where
  "preserves h h' = (length h \<le> length h' \<and> take (length h) h' = h)"

lemma preserves_refl [simp]: "preserves h h"
  by (simp add: preserves_def)

lemma preserves_append: "preserves h h' \<Longrightarrow> preserves h (h' @ xs)"
  by (simp add: preserves_def)

lemma preserves_update: "preserves h h' \<Longrightarrow> length h \<le> a \<Longrightarrow> preserves h (h'[a := c])"
  by (simp add: preserves_def)

lemma preserves_trans:
  assumes "preserves h h'" "preserves h' h''"
  shows "preserves h h''"
proof -
  have l: "length h \<le> length h'" "length h' \<le> length h''"
    and t: "take (length h) h' = h" "take (length h') h'' = h'"
    using assms by (simp_all add: preserves_def)
  have "take (length h) h'' = take (length h) (take (length h') h'')"
    using l by (simp add: min_def)
  also have "\<dots> = h" unfolding t ..
  finally show ?thesis using l by (simp add: preserves_def)
qed

lemma preserves_nth:
  assumes "preserves h h'" "a < length h"
  shows "h' ! a = h ! a"
proof -
  have "take (length h) h' ! a = h' ! a" using assms(2) by simp
  then show ?thesis using assms(1) by (simp add: preserves_def)
qed

lemma preserves_matrix_at: "preserves h h' \<Longrightarrow> a < length h \<Longrightarrow> matrix_at h' a = matrix_at h a"
  using preserves_nth[of h h' a] by (simp add: matrix_at_def preserves_def)

lemma preserves_vector_at: "preserves h h' \<Longrightarrow> a < length h \<Longrightarrow> vector_at h' a = vector_at h a"
  using preserves_nth[of h h' a] by (simp add: vector_at_def preserves_def)

lemma rotation_step_preserves:
  assumes "rotation_step h obj = (h', r)"
  shows "preserves h h'"
proof -
  let ?h1 = "h @ [Matrix (matrix_at h (symp_ref obj)), Vector (vector_at h (coeff_ref obj))]"
  let ?op = "obj\<lparr>symp_ref := length h, coeff_ref := Suc (length h)\<rparr>"
  have p1: "preserves h ?h1" by (simp add: preserves_append)
  have p2: "preserves h ((?h1[Suc (length h) := c] @ xs) @ ys)" for c xs ys
    by (intro preserves_append preserves_update p1) simp
  have t1: "terms_at ?h1 ?op = terms_at h obj" by (rule terms_at_copy)
  show ?thesis
  proof (cases "terms_at h obj")
    case Nil
    with rotation_step_short[of h obj] assms
    have "h' = ?h1"
      by (simp add: rotation_step_def copy_object_eq t1 del: append.simps)
    with p1 show ?thesis by simp
  next
    case (Cons t ts)
    show ?thesis
    proof (cases ts)
      case Nil
      with Cons assms have "h' = ?h1"
        by (simp add: rotation_step_def copy_object_eq t1 del: append.simps)
      with p1 show ?thesis by simp
    next
      case (Cons t' rest)
      obtain Ps bs Pk bk where t: "t = (Ps, bs)" "t' = (Pk, bk)"
        by (cases t; cases t') auto
      have ts: "terms_at h obj = (Ps, bs) # (Pk, bk) # rest"
        using \<open>terms_at h obj = t # ts\<close> Cons t by simp
      show ?thesis
      proof (cases "theta_sk bs bk")
        case None
        with assms have "h' = ?h1"
          by (simp add: rotation_step_def copy_object_eq t1 ts del: append.simps)
        with p1 show ?thesis by simp
      next
        case (Some th)
        show ?thesis
        proof (cases "isclose (bk * cos th - bs * sin th) 0")
          case False
          with Some assms have "h' = ?h1"
            by (simp add: rotation_step_def copy_object_eq t1 ts del: append.simps)
          with p1 show ?thesis by simp
        next
          case True
          with Some assms have "\<exists>c xs ys. h' = (?h1[Suc (length h) := c] @ xs) @ ys"
            by (simp add: rotation_step_def copy_object_eq t1 ts Let_def alloc_def
                     del: append.simps list_update.simps append_assoc) blast
          with p2 show ?thesis by blast
        qed
      qed
    qed
  qed
qed

lemma recursive_seq_rotations_store_preserves:
  "recursive_seq_rotations_store h rots obj = (h', r) \<Longrightarrow> preserves h h'"
proof (induction h rots obj arbitrary: h' r rule: recursive_seq_rotations_store.induct)
  case (1 h rots AC_op)
  show ?case
  proof (cases "length (terms_at h AC_op) = 1")
    case True
    with "1.prems" show ?thesis by simp
  next
    case False
    obtain h1 r1 where st: "rotation_step h AC_op = (h1, r1)"
      by (cases "rotation_step h AC_op")
    have p: "preserves h h1" by (rule rotation_step_preserves[OF st])
    show ?thesis
    proof (cases r1)
      case (Inl e)
      with False st "1.prems" p show ?thesis by simp
    next
      case (Inr b)
      obtain rot obj' where b: "b = (rot, obj')" by (cases b)
      have "recursive_seq_rotations_store h1 (rots @ [rot]) obj' = (h', r)"
        using "1.prems" False st Inr b by simp
      from "1.IH"[OF False st[symmetric] Inr b[symmetric] this]
      have "preserves h1 h'" .
      with p show ?thesis by (rule preserves_trans)
    qed
  qed
qed

lemma target_first_store_preserves:
  assumes "target_first_store h obj s = (h', r)" "preserves h0 h"
    and "length h0 \<le> symp_ref obj" "length h0 \<le> coeff_ref obj"
  shows "preserves h0 h'"
proof (cases "s = 0")
  case True
  with assms show ?thesis by (simp add: target_first_store_def)
next
  case False
  show ?thesis
  proof (cases "array_index (length (vector_at h (coeff_ref obj))) s")
    case (Inl e)
    with False assms show ?thesis by (simp add: target_first_store_def)
  next
    case (Inr k)
    have "preserves h0 (h[coeff_ref obj := c, symp_ref obj := d])" for c d
      by (intro preserves_update assms)
    moreover have "\<exists>c d. h' = h[coeff_ref obj := c, symp_ref obj := d]"
      using assms(1) False Inr
      by (auto simp: target_first_store_def Let_def split: if_splits)
    ultimately show ?thesis by blast
  qed
qed

lemma divide_by_norm_eq:
  "divide_by_norm h obj =
     (h @ [Vector (map (\<lambda>c. c / linalg_norm (vector_at h (coeff_ref obj))) (vector_at h (coeff_ref obj)))],
      obj\<lparr>coeff_ref := length h\<rparr>, linalg_norm (vector_at h (coeff_ref obj)))"
  by (simp add: divide_by_norm_def alloc_def Let_def)

lemma target_first_store_refs:
  assumes "target_first_store h obj s = (h', Inr obj')"
  shows "symp_ref obj' = symp_ref obj \<and> coeff_ref obj' = coeff_ref obj"
  using assms
  by (auto simp: target_first_store_def Let_def split: if_splits sum.splits)

lemma method_dispatch_frame:
  assumes "method_dispatch h self gamma_l AC_op up_method = (h', self', out)"
  shows "preserves h h' \<and> symp_ref self' = symp_ref self \<and> coeff_ref self' = coeff_ref self
         \<and> obj_n_qubits self' = obj_n_qubits self"
proof (cases "up_method = ''seq_rot''")
  case True
  show ?thesis
  proof (cases "gamma_l = 0 \<and> terms_at h AC_op \<noteq> []")
    case nan: True
    with True assms show ?thesis by (auto simp: method_dispatch_def)
  next
    case False
    obtain h4 rots r where rs: "recursive_seq_rotations_store h [] AC_op = (h4, rots, r)"
      by (cases "recursive_seq_rotations_store h [] AC_op") auto
    have p: "preserves h h4" by (rule recursive_seq_rotations_store_preserves[OF rs])
    from assms True False rs have "h' = h4 \<and> self' = self\<lparr>obj_X_sk_rotations := rots\<rparr>"
      by (cases r) (auto simp: method_dispatch_def Let_def)
    with p show ?thesis by simp
  qed
next
  case not_seq: False
  show ?thesis
  proof (cases "up_method = ''LCU''")
    case True
    show ?thesis
    proof (cases "gamma_l = 0 \<and> terms_at h AC_op \<noteq> []")
      case nan: True
      with True not_seq assms show ?thesis by (auto simp: method_dispatch_def)
    next
      case False
      obtain cache r where g: "generate_LCU_operator NoLCU (obj_n_qubits self) (terms_at h AC_op) = (cache, r)"
        by (cases "generate_LCU_operator NoLCU (obj_n_qubits self) (terms_at h AC_op)")
      from assms True not_seq False g have "h' = h \<and> self' = self\<lparr>obj_R_LCU := cache\<rparr>"
        by (cases r) (auto simp: method_dispatch_def Let_def split: option.splits)
      then show ?thesis by simp
    qed
  next
    case False
    with not_seq assms show ?thesis by (auto simp: method_dispatch_def)
  qed
qed

text \<open>
  C10.  After any call of \<open>unitary_partitioning\<close> every array that was in the store before
  the call is there unchanged, in particular the symplectic matrix and the coefficient
  vector of \<open>self\<close>; \<open>self\<close> still refers to the same two arrays and has the same number of
  qubits, so that of its fields only the caches \<open>X_sk_rotations\<close> and \<open>R_LCU\<close> can have
  changed.  The division by \<open>gamma_l\<close> makes a new array, and the swap of the target term
  writes into the arrays of the copy.
\<close>

theorem partitioning_does_not_mutate_self:
  assumes "unitary_partitioning_store h self s_index up_method = (h', self', out)"
    and "symp_ref self < length h" "coeff_ref self < length h"
  shows "preserves h h'
       \<and> symp_ref self' = symp_ref self \<and> coeff_ref self' = coeff_ref self
       \<and> obj_n_qubits self' = obj_n_qubits self
       \<and> symp_matrix (read_object h' self') = symp_matrix (read_object h self)
       \<and> coeff_vec (read_object h' self') = coeff_vec (read_object h self)
       \<and> n_qubits (read_object h' self') = n_qubits (read_object h self)"
proof -
  let ?h1 = "h @ [Matrix (matrix_at h (symp_ref self)), Vector (vector_at h (coeff_ref self))]"
  let ?AC0 = "self\<lparr>symp_ref := length h, coeff_ref := Suc (length h)\<rparr>"
  obtain h2 AC gamma_l where n: "divide_by_norm ?h1 ?AC0 = (h2, AC, gamma_l)"
    by (cases "divide_by_norm ?h1 ?AC0") auto
  have h2: "h2 = ?h1 @ [Vector (map (\<lambda>c. c / gamma_l) (vector_at ?h1 (Suc (length h))))]"
    and AC: "AC = ?AC0\<lparr>coeff_ref := length ?h1\<rparr>"
    using n unfolding divide_by_norm_eq by auto
  have p2: "preserves h h2"
    unfolding h2 by (intro preserves_append preserves_refl)
  have refs: "length h \<le> symp_ref AC" "length h \<le> coeff_ref AC"
    by (simp_all add: AC)
  have frame: "preserves h h' \<and> symp_ref self' = symp_ref self \<and> coeff_ref self' = coeff_ref self
         \<and> obj_n_qubits self' = obj_n_qubits self"
  proof (cases "length (terms_at ?h1 ?AC0) = 1")
    case True
    with assms(1) n have "h' = h2 \<and> self' = self"
      by (auto simp: unitary_partitioning_store_def copy_object_eq simp del: append.simps split: if_splits)
    with p2 show ?thesis by simp
  next
    case False
    show ?thesis
    proof (cases "select_target (read_object h2 self) s_index")
      case (Inl e)
      with assms(1) n False have "h' = h2 \<and> self' = self"
        by (auto simp: unitary_partitioning_store_def copy_object_eq simp del: append.simps)
      with p2 show ?thesis by simp
    next
      case (Inr s)
      obtain h3 r where tf: "target_first_store h2 AC s = (h3, r)"
        by (cases "target_first_store h2 AC s")
      have p3: "preserves h h3"
        by (rule target_first_store_preserves[OF tf p2 refs])
      show ?thesis
      proof (cases r)
        case (Inl e)
        with assms(1) n False \<open>select_target (read_object h2 self) s_index = Inr s\<close> tf
        have "h' = h3 \<and> self' = self"
          by (auto simp: unitary_partitioning_store_def copy_object_eq simp del: append.simps)
        with p3 show ?thesis by simp
      next
        case (Inr AC')
        with assms(1) n False \<open>select_target (read_object h2 self) s_index = Inr s\<close> tf
        have "method_dispatch h3 self gamma_l AC' up_method = (h', self', out)"
          by (auto simp: unitary_partitioning_store_def copy_object_eq simp del: append.simps)
        from method_dispatch_frame[OF this] p3 show ?thesis
          by (auto intro: preserves_trans)
      qed
    qed
  qed
  then have p: "preserves h h'" and r: "symp_ref self' = symp_ref self" "coeff_ref self' = coeff_ref self"
    and q: "obj_n_qubits self' = obj_n_qubits self"
    by simp_all
  have "matrix_at h' (symp_ref self) = matrix_at h (symp_ref self)"
    by (rule preserves_matrix_at[OF p assms(2)])
  moreover have "vector_at h' (coeff_ref self) = vector_at h (coeff_ref self)"
    by (rule preserves_vector_at[OF p assms(3)])
  ultimately show ?thesis
    using p r q by (simp add: read_object_def)
qed

section \<open>The store and the values\<close>

text \<open>
  The functions on the store compute what the functions on values compute: the outcome
  of \<open>unitary_partitioning_store\<close> is the outcome of \<open>unitary_partitioning\<close> on the operator
  that \<open>self\<close> stands for, and \<open>self\<close> afterwards stands for the operator that
  \<open>unitary_partitioning\<close> returns.
\<close>

lemma recursive_seq_rotations_store_refines:
  "recursive_seq_rotations_store h rots obj = (h', rots', r)
     \<Longrightarrow> recursive_seq_rotations rots (terms_at h obj) = (rots', r)"
proof (induction h rots obj arbitrary: h' rots' r rule: recursive_seq_rotations_store.induct)
  case (1 h rots AC_op)
  show ?case
  proof (cases "terms_at h AC_op")
    case Nil
    then obtain h1 where "rotation_step h AC_op = (h1, Inl IndexError)"
      using rotation_step_short[of h AC_op] by auto
    with Nil "1.prems" show ?thesis by simp
  next
    case (Cons t ts)
    show ?thesis
    proof (cases ts)
      case Nil
      with Cons "1.prems" show ?thesis by simp
    next
      case (Cons t' rest)
      obtain Ps bs Pk bk where t: "t = (Ps, bs)" "t' = (Pk, bk)"
        by (cases t; cases t') auto
      have ts: "terms_at h AC_op = (Ps, bs) # (Pk, bk) # rest"
        using \<open>terms_at h AC_op = t # ts\<close> Cons t by simp
      have len: "length (terms_at h AC_op) \<noteq> 1" by (simp add: ts)
      from rotation_step_long[OF ts] obtain h1 where long:
        "case theta_sk bs bk of
            None \<Rightarrow> rotation_step h AC_op = (h1, Inl (AssertionError ''term not zeroing out''))
          | Some th \<Rightarrow>
              if \<not> isclose (bk * cos th - bs * sin th) 0
              then rotation_step h AC_op = (h1, Inl (AssertionError ''term not zeroing out''))
              else (\<exists>obj'. rotation_step h AC_op = (h1, Inr (recorded_rotation (X_sk Ps Pk) th, obj'))
                     \<and> terms_at h1 obj' = (Ps, sqrt (bs ^ 2 + bk ^ 2)) # rest)"
        by blast
      show ?thesis
      proof (cases "theta_sk bs bk")
        case None
        with long have "rotation_step h AC_op = (h1, Inl (AssertionError ''term not zeroing out''))"
          by simp
        with "1.prems" len None show ?thesis by (simp add: ts)
      next
        case (Some th)
        show ?thesis
        proof (cases "isclose (bk * cos th - bs * sin th) 0")
          case False
          with long Some have "rotation_step h AC_op = (h1, Inl (AssertionError ''term not zeroing out''))"
            by simp
          with "1.prems" len Some False show ?thesis by (simp add: ts)
        next
          case True
          with long Some obtain obj' where
            st: "rotation_step h AC_op = (h1, Inr (recorded_rotation (X_sk Ps Pk) th, obj'))"
            and ts': "terms_at h1 obj' = (Ps, sqrt (bs ^ 2 + bk ^ 2)) # rest"
            by auto
          have "recursive_seq_rotations_store h1 (rots @ [recorded_rotation (X_sk Ps Pk) th]) obj' = (h', rots', r)"
            using "1.prems" len st by simp
          from "1.IH"[OF len st[symmetric] refl refl this]
          have "recursive_seq_rotations (rots @ [recorded_rotation (X_sk Ps Pk) th])
                  ((Ps, sqrt (bs ^ 2 + bk ^ 2)) # rest) = (rots', r)"
            unfolding ts' .
          with Some True show ?thesis
            by (simp add: ts del: recursive_seq_rotations.simps(3)) (simp add: Some True)
        qed
      qed
    qed
  qed
qed

lemma swap_rows_map:
  assumes "s < length xs"
  shows "swap_rows s (map f xs) = map f (swap_rows s xs)"
proof -
  have "xs \<noteq> []" using assms by auto
  with assms show ?thesis by (simp add: swap_rows_def map_update nth_map)
qed

lemma zip_map_snd: "zip M (map f V) = map (\<lambda>(v, c). (v, f c)) (zip M V)"
  by (induction M V rule: list_induct2') simp_all

lemma array_index_bound: "array_index n i = Inr s \<Longrightarrow> s < n"
  by (auto simp: array_index_def split: if_splits)

lemma read_object_preserved:
  assumes "preserves h h'" "symp_ref self < length h" "coeff_ref self < length h"
  shows "read_object h' self = read_object h self"
  using preserves_matrix_at[OF assms(1,2)] preserves_vector_at[OF assms(1,3)]
  by (simp add: read_object_def)

lemma read_object_caches:
  "read_object h (self\<lparr>obj_X_sk_rotations := rots\<rparr>) = (read_object h self)\<lparr>X_sk_rotations := rots\<rparr>"
  "read_object h (self\<lparr>obj_R_LCU := cache\<rparr>) = (read_object h self)\<lparr>R_LCU := cache\<rparr>"
  by (simp_all add: read_object_def)

text \<open>The part of \<open>unitary_partitioning\<close> after the target is first (lines 163-177), on values.\<close>

definition dispatch_value ::
  "anticommuting_op \<Rightarrow> real \<Rightarrow> real_op \<Rightarrow> string \<Rightarrow> anticommuting_op \<times> up_result outcome" where
  "dispatch_value self gamma_l AC_op up_method =
     (let nan = (gamma_l = 0 \<and> AC_op \<noteq> [])
      in if up_method = ''seq_rot'' then
           (if nan then (self\<lparr>X_sk_rotations := []\<rparr>, Raised (AssertionError ''term not zeroing out''))
            else case recursive_seq_rotations [] AC_op of
              (rots, Inl e) \<Rightarrow> (self\<lparr>X_sk_rotations := rots\<rparr>, Raised e)
            | (rots, Inr Ps) \<Rightarrow>
                (self\<lparr>X_sk_rotations := rots\<rparr>, Returned (Ps, Rotations rots, gamma_l, AC_op)))
         else if up_method = ''LCU'' then
           (if nan then (self\<lparr>R_LCU := CachedNaN\<rparr>, NonFinite)
            else case generate_LCU_operator NoLCU (n_qubits self) AC_op of
              (cache, Inl e) \<Rightarrow> (self\<lparr>R_LCU := cache\<rparr>, Raised e)
            | (cache, Inr None) \<Rightarrow> (self\<lparr>R_LCU := cache\<rparr>, Returned ([], LCU_operator cache, gamma_l, AC_op))
            | (cache, Inr (Some Ps)) \<Rightarrow>
                (self\<lparr>R_LCU := cache\<rparr>,
                 Returned (map (\<lambda>(v, c). (v, Re c)) Ps, LCU_operator cache, gamma_l, AC_op)))
         else (self, Raised (ValueError ''unknown unitary partitioning method'')))"

lemma unitary_partitioning_one_term:
  assumes "length (terms_of self) = 1"
  shows "unitary_partitioning self s_index up_method =
     (if linalg_norm (coeff_vec self) = 0 then (self, NonFinite)
      else (self, Returned (map (\<lambda>(v, c). (v, c / linalg_norm (coeff_vec self))) (terms_of self), NoRotations,
                            linalg_norm (coeff_vec self),
                            map (\<lambda>(v, c). (v, c / linalg_norm (coeff_vec self))) (terms_of self))))"
  using assms by (simp add: unitary_partitioning_def Let_def)

lemma unitary_partitioning_no_target:
  assumes "length (terms_of self) \<noteq> 1" "select_target self s_index = Inl e"
  shows "unitary_partitioning self s_index up_method = (self, Raised e)"
  using assms by (simp add: unitary_partitioning_def Let_def)

lemma unitary_partitioning_not_first:
  assumes "length (terms_of self) \<noteq> 1" "select_target self s_index = Inr s" "target_first self s = Inl e"
  shows "unitary_partitioning self s_index up_method = (self, Raised e)"
  using assms by (simp add: unitary_partitioning_def Let_def)

lemma unitary_partitioning_dispatch:
  assumes "length (terms_of self) \<noteq> 1" "select_target self s_index = Inr s"
    "target_first self s = Inr (rows, coeffs)"
  shows "unitary_partitioning self s_index up_method =
     dispatch_value self (linalg_norm (coeff_vec self))
       (zip rows (map (\<lambda>c. c / linalg_norm (coeff_vec self)) coeffs)) up_method"
  using assms by (simp add: unitary_partitioning_def dispatch_value_def Let_def)

lemma method_dispatch_refines:
  assumes md: "method_dispatch h3 self gamma_l AC up_method = (h', self', out)"
    and p: "preserves h h3" and refs: "symp_ref self < length h" "coeff_ref self < length h"
  shows "dispatch_value (read_object h self) gamma_l (terms_at h3 AC) up_method = (read_object h' self', out)"
proof -
  have r3: "read_object h3 x = read_object h x"
    if "symp_ref x = symp_ref self" "coeff_ref x = coeff_ref self" for x
    using preserves_matrix_at[OF p refs(1)] preserves_vector_at[OF p refs(2)] that
    by (simp add: read_object_def)
  have nq: "n_qubits (read_object h self) = obj_n_qubits self" by (simp add: read_object_def)
  show ?thesis
  proof (cases "up_method = ''seq_rot''")
    case True
    show ?thesis
    proof (cases "gamma_l = 0 \<and> terms_at h3 AC \<noteq> []")
      case nan: True
      with True md have "h' = h3 \<and> self' = self\<lparr>obj_X_sk_rotations := []\<rparr>
                       \<and> out = Raised (AssertionError ''term not zeroing out'')"
        by (auto simp: method_dispatch_def)
      with True nan show ?thesis
        by (auto simp: dispatch_value_def read_object_caches r3[of self])
    next
      case False
      obtain h4 rots r where rs: "recursive_seq_rotations_store h3 [] AC = (h4, rots, r)"
        by (cases "recursive_seq_rotations_store h3 [] AC") auto
      have p4: "preserves h h4"
        using p recursive_seq_rotations_store_preserves[OF rs] by (rule preserves_trans)
      have r4: "read_object h4 self = read_object h self"
        by (rule read_object_preserved[OF p4 refs])
      have v: "recursive_seq_rotations [] (terms_at h3 AC) = (rots, r)"
        by (rule recursive_seq_rotations_store_refines[OF rs])
      show ?thesis
      proof (cases r)
        case (Inl e)
        with md True False rs have "h' = h4 \<and> self' = self\<lparr>obj_X_sk_rotations := rots\<rparr> \<and> out = Raised e"
          by (auto simp: method_dispatch_def Let_def)
        with True False v Inl show ?thesis
          by (auto simp: dispatch_value_def read_object_caches r4)
      next
        case (Inr Ps)
        with md True False rs
        have "h' = h4 \<and> self' = self\<lparr>obj_X_sk_rotations := rots\<rparr>
              \<and> out = Returned (Ps, Rotations rots, gamma_l, terms_at h3 AC)"
          by (auto simp: method_dispatch_def Let_def)
        with True False v Inr show ?thesis
          by (auto simp: dispatch_value_def read_object_caches r4)
      qed
    qed
  next
    case not_seq: False
    have r3s: "read_object h3 self = read_object h self"
      by (rule read_object_preserved[OF p refs])
    show ?thesis
    proof (cases "up_method = ''LCU''")
      case True
      show ?thesis
      proof (cases "gamma_l = 0 \<and> terms_at h3 AC \<noteq> []")
        case nan: True
        with True not_seq md have "h' = h3 \<and> self' = self\<lparr>obj_R_LCU := CachedNaN\<rparr> \<and> out = NonFinite"
          by (auto simp: method_dispatch_def)
        with True not_seq nan show ?thesis
          by (auto simp: dispatch_value_def read_object_caches r3s)
      next
        case False
        obtain cache r where g: "generate_LCU_operator NoLCU (obj_n_qubits self) (terms_at h3 AC) = (cache, r)"
          by (cases "generate_LCU_operator NoLCU (obj_n_qubits self) (terms_at h3 AC)")
        show ?thesis
        proof (cases r)
          case (Inl e)
          with md True not_seq False g have "h' = h3 \<and> self' = self\<lparr>obj_R_LCU := cache\<rparr> \<and> out = Raised e"
            by (auto simp: method_dispatch_def Let_def)
          with True not_seq False g Inl show ?thesis
            by (auto simp: dispatch_value_def read_object_caches r3s nq)
        next
          case (Inr Ps)
          show ?thesis
          proof (cases Ps)
            case None
            with Inr md True not_seq False g
            have "h' = h3 \<and> self' = self\<lparr>obj_R_LCU := cache\<rparr>
                  \<and> out = Returned ([], LCU_operator cache, gamma_l, terms_at h3 AC)"
              by (auto simp: method_dispatch_def Let_def)
            with True not_seq False g Inr None show ?thesis
              by (auto simp: dispatch_value_def read_object_caches r3s nq)
          next
            case (Some P)
            with Inr md True not_seq False g
            have "h' = h3 \<and> self' = self\<lparr>obj_R_LCU := cache\<rparr>
                  \<and> out = Returned (map (\<lambda>(v, c). (v, Re c)) P, LCU_operator cache, gamma_l, terms_at h3 AC)"
              by (auto simp: method_dispatch_def Let_def)
            with True not_seq False g Inr Some show ?thesis
              by (auto simp: dispatch_value_def read_object_caches r3s nq)
          qed
        qed
      qed
    next
      case False
      with not_seq md have "h' = h3 \<and> self' = self
            \<and> out = Raised (ValueError ''unknown unitary partitioning method'')"
        by (auto simp: method_dispatch_def)
      with False not_seq show ?thesis
        by (simp add: dispatch_value_def r3s)
    qed
  qed
qed

lemma target_first_store_refines:
  assumes M: "matrix_at h2 (symp_ref AC) = M" and V: "vector_at h2 (coeff_ref AC) = map f V0"
    and ne: "symp_ref AC \<noteq> coeff_ref AC" and valid: "symp_ref AC < length h2" "coeff_ref AC < length h2"
    and op: "symp_matrix op = M" "coeff_vec op = V0"
  shows "case target_first_store h2 AC s of
           (h3, Inl e) \<Rightarrow> target_first op s = Inl e
         | (h3, Inr AC') \<Rightarrow> (\<exists>rows coeffs. target_first op s = Inr (rows, coeffs)
                                \<and> terms_at h3 AC' = zip rows (map f coeffs))"
proof (cases "s = 0")
  case True
  then show ?thesis
    by (simp add: target_first_store_def target_first_def terms_at_def M V op)
next
  case False
  show ?thesis
  proof (cases "array_index (length V0) s")
    case (Inl e)
    with False show ?thesis
      by (simp add: target_first_store_def target_first_def V op)
  next
    case (Inr k)
    then have k: "k < length V0" by (rule array_index_bound)
    let ?h3 = "h2[coeff_ref AC := Vector (swap_rows k (map f V0)), symp_ref AC := Matrix (swap_rows k M)]"
    have m3: "matrix_at ?h3 (symp_ref AC) = swap_rows k M"
      using valid by simp
    have v3: "vector_at ?h3 (coeff_ref AC) = map f (swap_rows k V0)"
      using valid ne by (simp add: swap_rows_map[OF k])
    have m1: "matrix_at (h2[coeff_ref AC := Vector (swap_rows k (map f V0))]) (symp_ref AC) = M"
      using ne M by simp
    show ?thesis
    proof (cases "sum_list (concat (anti_comm_check (swap_rows k M))) = 0")
      case True
      have "target_first_store h2 AC s = (?h3, Inr (AC\<lparr>obj_X_sk_rotations := [], obj_R_LCU := NoLCU\<rparr>))"
        using False Inr True
        by (simp add: target_first_store_def V Let_def m1 m3 del: matrix_at_update vector_at_update)
      moreover have "target_first op s = Inr (swap_rows k M, swap_rows k V0)"
        using False Inr True by (simp add: target_first_def op AntiCommutingOp_def)
      moreover have "terms_at ?h3 (AC\<lparr>obj_X_sk_rotations := [], obj_R_LCU := NoLCU\<rparr>)
                       = zip (swap_rows k M) (map f (swap_rows k V0))"
        using m3 v3 by (simp add: terms_at_def)
      ultimately show ?thesis by simp
    next
      case bad: False
      have "target_first_store h2 AC s
              = (?h3, Inl (AssertionError ''operator needs to be made of anti-commuting Pauli operators''))"
        using False Inr bad
        by (simp add: target_first_store_def V Let_def m1 m3 del: matrix_at_update vector_at_update)
      moreover have "target_first op s
              = Inl (AssertionError ''operator needs to be made of anti-commuting Pauli operators'')"
        using False Inr bad by (simp add: target_first_def op AntiCommutingOp_def)
      ultimately show ?thesis by simp
    qed
  qed
qed

lemma unitary_partitioning_store_refines:
  assumes U: "unitary_partitioning_store h self s_index up_method = (h', self', out)"
    and refs: "symp_ref self < length h" "coeff_ref self < length h"
  shows "unitary_partitioning (read_object h self) s_index up_method = (read_object h' self', out)"
proof -
  let ?M = "matrix_at h (symp_ref self)" and ?V = "vector_at h (coeff_ref self)"
  let ?g = "linalg_norm ?V"
  let ?op = "read_object h self"
  let ?h1 = "h @ [Matrix ?M, Vector ?V]"
  let ?copy = "self\<lparr>symp_ref := length h, coeff_ref := Suc (length h)\<rparr>"
  let ?h2 = "?h1 @ [Vector (map (\<lambda>c. c / ?g) ?V)]"
  let ?norm = "?copy\<lparr>coeff_ref := length ?h1\<rparr>"
  have v1: "vector_at ?h1 (Suc (length h)) = ?V" by simp
  have n: "divide_by_norm ?h1 ?copy = (?h2, ?norm, ?g)"
    by (simp add: divide_by_norm_eq)
  have t1: "terms_at ?h1 ?copy = zip ?M ?V" by (simp add: terms_at_def)
  have tv: "terms_of ?op = zip ?M ?V" by (simp add: terms_of_def read_object_def)
  have cv: "coeff_vec ?op = ?V" "symp_matrix ?op = ?M" by (simp_all add: read_object_def)
  have p2: "preserves h ?h2" by (intro preserves_append preserves_refl)
  have r2: "read_object ?h2 self = ?op" by (rule read_object_preserved[OF p2 refs])
  have m2: "matrix_at ?h2 (symp_ref ?norm) = ?M" by simp
  have v2: "vector_at ?h2 (coeff_ref ?norm) = map (\<lambda>c. c / ?g) ?V"
    by (simp add: numeral_2_eq_2)
  have t2: "terms_at ?h2 ?norm = map (\<lambda>(v, c). (v, c / ?g)) (zip ?M ?V)"
    unfolding terms_at_def m2 v2 by (rule zip_map_snd)
  show ?thesis
  proof (cases "length (zip ?M ?V) = 1")
    case True
    have "unitary_partitioning_store h self s_index up_method =
            (if ?g = 0 then (?h2, self, NonFinite)
             else (?h2, self, Returned (terms_at ?h2 ?norm, NoRotations, ?g, terms_at ?h2 ?norm)))"
    proof -
      have c: "(length (terms_at ?h1 ?copy) = 1) = True" using True by (simp add: t1)
      show ?thesis
        by (simp only: unitary_partitioning_store_def copy_object_eq n c Let_def prod.case if_True)
    qed
    with U have res: "h' = ?h2" "self' = self"
        "out = (if ?g = 0 then NonFinite else Returned (terms_at ?h2 ?norm, NoRotations, ?g, terms_at ?h2 ?norm))"
      by (auto split: if_splits)
    have len1: "length (terms_of ?op) = 1" using True by (simp only: tv)
    show ?thesis
      unfolding res r2 unitary_partitioning_one_term[OF len1] tv cv t2 by simp
  next
    case False
    have U1: "unitary_partitioning_store h self s_index up_method =
            (case select_target ?op s_index of
               Inl e \<Rightarrow> (?h2, self, Raised e)
             | Inr s \<Rightarrow>
                (case target_first_store ?h2 ?norm s of
                   (h3, Inl e) \<Rightarrow> (h3, self, Raised e)
                 | (h3, Inr AC_op) \<Rightarrow> method_dispatch h3 self ?g AC_op up_method))"
    proof -
      have c: "(length (terms_at ?h1 ?copy) = 1) = False" using False by (simp add: t1)
      show ?thesis
        by (simp only: unitary_partitioning_store_def copy_object_eq n c Let_def prod.case if_False r2)
    qed
    have len: "length (terms_of ?op) \<noteq> 1" using False by (simp only: tv) simp
    show ?thesis
    proof (cases "select_target ?op s_index")
      case (Inl e)
      with U U1 have res: "h' = ?h2" "self' = self" "out = Raised e" by auto
      show ?thesis
        unfolding res r2 by (rule unitary_partitioning_no_target[OF len Inl])
    next
      case (Inr s)
      obtain h3 r where tf: "target_first_store ?h2 ?norm s = (h3, r)"
        by (cases "target_first_store ?h2 ?norm s")
      have p3: "preserves h h3"
        by (rule target_first_store_preserves[OF tf p2]) simp_all
      have r3: "read_object h3 self = ?op" by (rule read_object_preserved[OF p3 refs])
      have tfr: "case target_first_store ?h2 ?norm s of
           (h3, Inl e) \<Rightarrow> target_first ?op s = Inl e
         | (h3, Inr AC') \<Rightarrow> (\<exists>rows coeffs. target_first ?op s = Inr (rows, coeffs)
                                \<and> terms_at h3 AC' = zip rows (map (\<lambda>c. c / ?g) coeffs))"
        by (rule target_first_store_refines[OF m2 v2 _ _ _ cv(2) cv(1)]) simp_all
      show ?thesis
      proof (cases r)
        case (Inl e)
        with tfr tf have v: "target_first ?op s = Inl e" by simp
        from U U1 \<open>select_target ?op s_index = Inr s\<close> tf Inl
        have res: "h' = h3" "self' = self" "out = Raised e" by auto
        show ?thesis
          unfolding res r3
          by (rule unitary_partitioning_not_first[OF len \<open>select_target ?op s_index = Inr s\<close> v])
      next
        case (Inr AC')
        with tfr tf obtain rows coeffs where v: "target_first ?op s = Inr (rows, coeffs)"
          and t3: "terms_at h3 AC' = zip rows (map (\<lambda>c. c / ?g) coeffs)"
          by auto
        from U U1 \<open>select_target ?op s_index = Inr s\<close> tf Inr
        have md: "method_dispatch h3 self ?g AC' up_method = (h', self', out)" by auto
        from method_dispatch_refines[OF md p3 refs]
        have "dispatch_value ?op ?g (terms_at h3 AC') up_method = (read_object h' self', out)" .
        then show ?thesis
          using unitary_partitioning_dispatch[OF len \<open>select_target ?op s_index = Inr s\<close> v, of up_method]
          by (simp only: cv t3)
      qed
    qed
  qed
qed

subsection \<open>The clique \<open>{X: 3, Z: 4}\<close> in a store\<close>

definition clique_store :: store where
  "clique_store = [Matrix [pauli_row ''X'', pauli_row ''Z''], Vector [3, 4]]"

definition clique_object :: ac_object where
  "clique_object = \<lparr>obj_n_qubits = 1, symp_ref = 0, coeff_ref = 1,
      obj_X_sk_rotations = [], obj_R_LCU = NoLCU\<rparr>"

lemma swapped_clique_anticommutes:
  "sum_list (concat (anti_comm_check (swap_rows 1 [pauli_row ''X'', pauli_row ''Z'']))) = 0"
  by (simp add: swap_rows_def anti_comm_check_def commutes_def anticommuting_count_def
        row_simps upt_rec)

text \<open>
  A call with the target index 1 and a method name that is not known: the store after the
  call holds the two arrays of \<open>self\<close> as they were, the copy of the matrix with its rows
  exchanged, the copy of the coefficients, and the normalized coefficients, exchanged.
\<close>

lemma swap_writes_into_the_copy:
  "unitary_partitioning_store clique_store clique_object (Some 1) ''qdrift''
     = ([Matrix [pauli_row ''X'', pauli_row ''Z''], Vector [3, 4],
         Matrix [pauli_row ''Z'', pauli_row ''X''], Vector [3, 4], Vector [4 / 5, 3 / 5]],
        clique_object, Raised (ValueError ''unknown unitary partitioning method''))"
proof -
  let ?h2 = "[Matrix [pauli_row ''X'', pauli_row ''Z''], Vector [3, 4],
              Matrix [pauli_row ''X'', pauli_row ''Z''], Vector [3, 4], Vector [3 / 5, 4 / 5]]"
  let ?norm = "clique_object\<lparr>symp_ref := 2, coeff_ref := 4\<rparr>"
  have c: "copy_object clique_store clique_object
             = (clique_store @ [Matrix [pauli_row ''X'', pauli_row ''Z''], Vector [3, 4]],
                clique_object\<lparr>symp_ref := 2, coeff_ref := 3\<rparr>)"
    by (simp add: copy_object_eq clique_store_def clique_object_def numeral_3_eq_3 numeral_2_eq_2)
  have n: "divide_by_norm (clique_store @ [Matrix [pauli_row ''X'', pauli_row ''Z''], Vector [3, 4]])
             (clique_object\<lparr>symp_ref := 2, coeff_ref := 3\<rparr>) = (?h2, ?norm, 5)"
    by (simp add: divide_by_norm_eq clique_store_def clique_object_def numeral_3_eq_3 linalg_norm_3_4)
  have t: "terms_at (clique_store @ [Matrix [pauli_row ''X'', pauli_row ''Z''], Vector [3, 4]])
             (clique_object\<lparr>symp_ref := 2, coeff_ref := 3\<rparr>)
           = [(pauli_row ''X'', 3), (pauli_row ''Z'', 4)]"
    by (simp add: terms_at_def clique_store_def clique_object_def numeral_3_eq_3 numeral_2_eq_2)
  have st: "select_target (read_object ?h2 clique_object) (Some 1) = Inr 1"
    by (simp add: select_target_def)
  have tf: "target_first_store ?h2 ?norm 1
              = ([Matrix [pauli_row ''X'', pauli_row ''Z''], Vector [3, 4],
                  Matrix [pauli_row ''Z'', pauli_row ''X''], Vector [3, 4], Vector [4 / 5, 3 / 5]],
                 Inr (?norm\<lparr>obj_X_sk_rotations := [], obj_R_LCU := NoLCU\<rparr>))"
    using swapped_clique_anticommutes
    by (simp add: target_first_store_def clique_object_def array_index_def Let_def
          numeral_2_eq_2 eval_nat_numeral swap_rows_def)
  show ?thesis
    unfolding unitary_partitioning_store_def c
    by (simp add: t n st tf method_dispatch_def Let_def del: append.simps)
qed

text \<open>
  The same assignments on the arrays of \<open>self\<close> itself would exchange its rows: the frame
  property rests on the copy of line 140.
\<close>

lemma swap_without_copy_mutates:
  "fst (target_first_store clique_store clique_object 1)
     = [Matrix [pauli_row ''Z'', pauli_row ''X''], Vector [4, 3]]"
  using swapped_clique_anticommutes
  by (simp add: target_first_store_def clique_store_def clique_object_def array_index_def Let_def
        swap_rows_def)

theorem partitioning_does_not_mutate_self_witness:
  "symp_ref clique_object < length clique_store \<and> coeff_ref clique_object < length clique_store
   \<and> (\<exists>h' self' out.
         unitary_partitioning_store clique_store clique_object (Some 1) ''seq_rot'' = (h', self', out)
       \<and> take 2 h' = clique_store
       \<and> symp_ref self' = 0 \<and> coeff_ref self' = 1 \<and> obj_n_qubits self' = 1
       \<and> symp_matrix (read_object h' self') = [pauli_row ''X'', pauli_row ''Z'']
       \<and> coeff_vec (read_object h' self') = [3, 4])"
proof -
  have refs: "symp_ref clique_object < length clique_store" "coeff_ref clique_object < length clique_store"
    by (simp_all add: clique_object_def clique_store_def)
  obtain h' self' out where
    U: "unitary_partitioning_store clique_store clique_object (Some 1) ''seq_rot'' = (h', self', out)"
    by (cases "unitary_partitioning_store clique_store clique_object (Some 1) ''seq_rot''")
  note th = partitioning_does_not_mutate_self[OF U refs]
  have "take 2 h' = clique_store"
    using th by (simp add: preserves_def clique_store_def numeral_2_eq_2)
  moreover have "symp_matrix (read_object clique_store clique_object) = [pauli_row ''X'', pauli_row ''Z'']"
    "coeff_vec (read_object clique_store clique_object) = [3, 4]"
    by (simp_all add: read_object_def clique_store_def clique_object_def)
  moreover have "symp_ref clique_object = 0" "coeff_ref clique_object = 1" "obj_n_qubits clique_object = 1"
    by (simp_all add: clique_object_def)
  ultimately show ?thesis
    using th refs U by simp
qed

end
